theory Spec2Isabelle
  imports Main "HOL-Library.Sublist"
begin

section \<open>Shared types (src/shared/types)\<close>

text \<open>
  \<open>LinkTagName = 'A' | 'IMG' | 'LINK' | 'SCRIPT'\<close> and the six status categories.
  The constructors carry a prefix because single capital letters are variable names.
\<close>

datatype LinkTagName = TagA | TagIMG | TagLINK | TagSCRIPT

datatype StatusCategory =
  Success | Redirect | ClientError | ServerError | Timeout | NetworkError

text \<open>
  Instants read from \<open>new Date()\<close>. The code stores their ISO-8601 rendering; the model
  keeps the instant itself, supplied by the caller.
\<close>

type_synonym timestamp = nat

text \<open>\<open>interface LinkInfo\<close>.\<close>

record LinkInfo =
  url :: string
  tagName :: LinkTagName
  "text" :: "string option"
  elementId :: string

text \<open>
  \<open>interface ValidationResult\<close>: the four fields of the descriptor, copied by
  \<open>baseResult\<close>, and the four fields of the verdict. It is written as an extension of
  \<open>LinkInfo\<close> so that the copied fields keep the source's names.
\<close>

record ValidationResult = LinkInfo +
  status :: "int option"
  statusCategory :: StatusCategory
  statusText :: string
  checkedAt :: timestamp

section \<open>Status classification (linkValidator)\<close>

fun classifyStatus :: "int option \<Rightarrow> StatusCategory" where
  "classifyStatus None = NetworkError"
| "classifyStatus (Some c) =
     (if 200 \<le> c \<and> c < 300 then Success
      else if 300 \<le> c \<and> c < 400 then Redirect
      else if 400 \<le> c \<and> c < 500 then ClientError
      else if 500 \<le> c then ServerError
      else NetworkError)"

text \<open>\<open>String(n)\<close> for an integer \<open>n\<close>: decimal digits, with a minus sign when negative.\<close>

fun showNat :: "nat \<Rightarrow> string" where
  "showNat n =
     (if n < 10 then [''0123456789'' ! n]
      else showNat (n div 10) @ [''0123456789'' ! (n mod 10)])"

declare showNat.simps [simp del]

definition showInt :: "int \<Rightarrow> string" where
  "showInt i = (if i < 0 then CHR ''-'' # showNat (nat (- i)) else showNat (nat i))"

text \<open>The table \<open>statusDescriptions\<close> of \<open>getStatusText\<close>, in the source's order.\<close>

definition statusDescriptions :: "(int \<times> string) list" where
  "statusDescriptions =
    [(200, ''OK''), (201, ''Created''), (204, ''No Content''),
     (301, ''Moved Permanently''), (302, ''Found''), (303, ''See Other''),
     (304, ''Not Modified''), (307, ''Temporary Redirect''), (308, ''Permanent Redirect''),
     (400, ''Bad Request''), (401, ''Unauthorized''), (403, ''Forbidden''),
     (404, ''Not Found''), (405, ''Method Not Allowed''), (408, ''Request Timeout''),
     (410, ''Gone''), (429, ''Too Many Requests''),
     (500, ''Internal Server Error''), (502, ''Bad Gateway''),
     (503, ''Service Unavailable''), (504, ''Gateway Timeout'')]"

fun getStatusText :: "int option \<Rightarrow> StatusCategory \<Rightarrow> string" where
  "getStatusText (Some c) category =
     (case map_of statusDescriptions c of
        Some d \<Rightarrow> d
      | None \<Rightarrow> ''Status '' @ showInt c)"
| "getStatusText None Timeout = ''Request Timeout''"
| "getStatusText None NetworkError = ''Network Error''"
| "getStatusText None _ = ''Unknown Error''"

section \<open>Single-link validator (linkValidator)\<close>

definition DEFAULT_TIMEOUT_MS :: nat where
  "DEFAULT_TIMEOUT_MS = 10000"

datatype HttpMethod = HEAD | GET

text \<open>
  A thrown value after \<open>caughtError instanceof Error ? caughtError : new Error(String(caughtError))\<close>:
  its \<open>name\<close> and its \<open>message\<close>.
\<close>

datatype JsError = JsError (name: string) (message: string)

text \<open>What one \<open>await performRequest(url, method, signal)\<close> gives: a response, of which the
  code reads only the status, or a rejection.\<close>

datatype FetchResult = Response int | Rejected JsError

text \<open>The replies of the network to the two requests a link can receive.\<close>

type_synonym Network = "HttpMethod \<Rightarrow> FetchResult"

text \<open>
  An \<open>AbortSignal\<close> as \<open>validateLink\<close> observes it: the code reads \<open>aborted\<close> once on
  entry and once when it inspects a failure, and the flag is written by others in between.
\<close>

datatype AbortSignal = AbortSignal (abortedOnEntry: bool) (abortedOnFailure: bool)

record ValidatorConfig =
  timeoutMs :: "nat option"
  signal :: "AbortSignal option"

text \<open>\<open>externalSignal?.aborted\<close> at the two places that read it; an absent signal reads as
  false.\<close>

definition firedOnEntry :: "ValidatorConfig \<Rightarrow> bool" where
  "firedOnEntry config = (case signal config of Some s \<Rightarrow> abortedOnEntry s | None \<Rightarrow> False)"

definition firedOnFailure :: "ValidatorConfig \<Rightarrow> bool" where
  "firedOnFailure config = (case signal config of Some s \<Rightarrow> abortedOnFailure s | None \<Rightarrow> False)"

text \<open>
  What \<open>validateLink\<close> does to the outside: each \<open>createTimeoutController\<close> arms a new timer
  (numbered in creation order) together with a new \<open>AbortController\<close> for the request that
  follows; \<open>clear\<close> disarms the timer of that number.
\<close>

datatype Effect =
  CreateTimeoutController nat nat
  | PerformRequest string HttpMethod
  | ClearTimeout nat

text \<open>\<open>String.prototype.includes\<close>: the argument occurs as a contiguous substring.\<close>

fun startsWith :: "string \<Rightarrow> string \<Rightarrow> bool" where
  "startsWith s [] = True"
| "startsWith [] (p # ps) = False"
| "startsWith (c # cs) (p # ps) = (c = p \<and> startsWith cs ps)"

fun includesStr :: "string \<Rightarrow> string \<Rightarrow> bool" where
  "includesStr [] p = (p = [])"
| "includesStr (c # cs) p = (startsWith (c # cs) p \<or> includesStr cs p)"

text \<open>\<open>response?.status === 405\<close>, then \<open>=== 400\<close>; the error argument is ignored.\<close>

definition shouldFallbackToGet :: "int option \<Rightarrow> bool" where
  "shouldFallbackToGet response =
     (if response = Some 405 then True
      else if response = Some 400 then True
      else False)"

definition baseResult ::
  "LinkInfo \<Rightarrow> timestamp \<Rightarrow> int option \<Rightarrow> StatusCategory \<Rightarrow> string \<Rightarrow> ValidationResult" where
  "baseResult link now st cat txt =
     \<lparr>url = url link, tagName = tagName link, text = text link, elementId = elementId link,
      status = st, statusCategory = cat, statusText = txt, checkedAt = now\<rparr>"

definition isTimeout :: "JsError \<Rightarrow> bool" where
  "isTimeout lastError \<longleftrightarrow>
     name lastError = ''AbortError'' \<or> name lastError = ''TimeoutError''
     \<or> includesStr (message lastError) ''timeout'' \<or> includesStr (message lastError) ''aborted''"

text \<open>
  The tail of \<open>validateLink\<close> from \<open>// Process result\<close> on, as a function of the two
  variables \<open>response\<close> and \<open>lastError\<close> and of \<open>externalSignal?.aborted\<close> read there.
\<close>

definition processResult ::
  "LinkInfo \<Rightarrow> timestamp \<Rightarrow> int option \<Rightarrow> JsError option \<Rightarrow> bool \<Rightarrow> ValidationResult" where
  "processResult link now response lastError externallyAborted =
     (case response of
        Some st \<Rightarrow>
          baseResult link now (Some st) (classifyStatus (Some st))
            (getStatusText (Some st) (classifyStatus (Some st)))
      | None \<Rightarrow>
          (case lastError of
             Some e \<Rightarrow>
               if externallyAborted then baseResult link now None NetworkError ''Cancelled''
               else if isTimeout e then
                 baseResult link now None Timeout (getStatusText None Timeout)
               else
                 baseResult link now None NetworkError
                   (if message e = [] then getStatusText None NetworkError else message e)
           | None \<Rightarrow>
               baseResult link now None NetworkError (getStatusText None NetworkError)))"

text \<open>
  \<open>validateLink(link, config)\<close>, given the instant of the call and the network's replies.
  The result comes with the effects in the order the code performs them. Timer 0 guards the
  HEAD request, timer 1 the GET request, whichever branch issues it.
\<close>

definition validateLink ::
  "LinkInfo \<Rightarrow> ValidatorConfig \<Rightarrow> timestamp \<Rightarrow> Network \<Rightarrow> ValidationResult \<times> Effect list" where
  "validateLink link config now net =
     (let ms = (case timeoutMs config of Some t \<Rightarrow> t | None \<Rightarrow> DEFAULT_TIMEOUT_MS);
          onEntry = firedOnEntry config;
          onFailure = firedOnFailure config;
          headEffects = [CreateTimeoutController 0 ms, PerformRequest (url link) HEAD];
          getEffects = [CreateTimeoutController 1 ms, PerformRequest (url link) GET, ClearTimeout 1]
      in if onEntry then (baseResult link now None NetworkError ''Cancelled'', [])
         else
           (case net HEAD of
              Response st \<Rightarrow>
                if shouldFallbackToGet (Some st) then
                  (case net GET of
                     Response st' \<Rightarrow>
                       (processResult link now (Some st') None onFailure,
                        headEffects @ [ClearTimeout 0] @ getEffects @ [ClearTimeout 0])
                   | Rejected e \<Rightarrow>
                       (processResult link now (Some st) (Some e) onFailure,
                        headEffects @ [ClearTimeout 0] @ getEffects @ [ClearTimeout 0]))
                else
                  (processResult link now (Some st) None onFailure,
                   headEffects @ [ClearTimeout 0, ClearTimeout 0])
            | Rejected e \<Rightarrow>
                (case net GET of
                   Response st' \<Rightarrow>
                     (processResult link now (Some st') None onFailure,
                      headEffects @ [ClearTimeout 0] @ getEffects)
                 | Rejected e' \<Rightarrow>
                     (processResult link now None (Some e') onFailure,
                      headEffects @ [ClearTimeout 0] @ getEffects))))"

section \<open>CSV cells (csvExporter)\<close>

text \<open>The argument of \<open>escapeCSVValue\<close>: \<open>string | number | null\<close>.\<close>

datatype CsvValue = CsvNull | CsvString string | CsvNumber int

definition SEPARATOR :: string where
  "SEPARATOR = '',''"

definition dquote :: char where
  "dquote = CHR 0x22"

text \<open>\<open>s.replace(/c/g, r)\<close> for a one-character pattern.\<close>

fun replaceAll :: "char \<Rightarrow> string \<Rightarrow> string \<Rightarrow> string" where
  "replaceAll c r [] = []"
| "replaceAll c r (x # xs) = (if x = c then r @ replaceAll c r xs else x # replaceAll c r xs)"

definition escapeCSVValue :: "CsvValue \<Rightarrow> string" where
  "escapeCSVValue v =
     (case v of
        CsvNull \<Rightarrow> []
      | _ \<Rightarrow>
        (let stringValue = (case v of CsvString s \<Rightarrow> s | CsvNumber n \<Rightarrow> showInt n | CsvNull \<Rightarrow> []);
             needsEscaping =
               (includesStr stringValue SEPARATOR \<or> includesStr stringValue [dquote]
                \<or> includesStr stringValue [CHR 0x0A] \<or> includesStr stringValue [CHR 0x0D])
         in if \<not> needsEscaping then stringValue
            else [dquote] @ replaceAll dquote [dquote, dquote] stringValue @ [dquote]))"

section \<open>Semaphore (batchProcessor)\<close>

text \<open>
  \<open>class Semaphore\<close>: the count of free permits and the queue of suspended callers. A
  queue entry is the \<open>resolve\<close> callback of a pending \<open>acquire\<close>; the model names it by the
  caller it resumes.
\<close>

record 'c Semaphore =
  permits :: int
  waiting :: "'c list"

definition newSemaphore :: "int \<Rightarrow> 'c Semaphore" where
  "newSemaphore n = \<lparr>permits = n, waiting = []\<rparr>"

text \<open>\<open>acquire()\<close> by caller \<open>c\<close>: \<open>True\<close> when the promise is already resolved on return,
  \<open>False\<close> when the caller is left suspended in the queue.\<close>

definition acquire :: "'c \<Rightarrow> 'c Semaphore \<Rightarrow> bool \<times> 'c Semaphore" where
  "acquire c s =
     (if permits s > 0 then (True, s\<lparr>permits := permits s - 1\<rparr>)
      else (False, s\<lparr>waiting := waiting s @ [c]\<rparr>))"

text \<open>\<open>release()\<close>: the caller taken from the front of the queue and resumed, if any.\<close>

definition release :: "'c Semaphore \<Rightarrow> 'c option \<times> 'c Semaphore" where
  "release s =
     (case waiting s of
        next # rest \<Rightarrow> (Some next, s\<lparr>waiting := rest\<rparr>)
      | [] \<Rightarrow> (None, s\<lparr>permits := permits s + 1\<rparr>))"







section \<open>Sessions, storage and the processor's state (batchProcessor)\<close>

definition DEFAULT_CONCURRENCY :: int where
  "DEFAULT_CONCURRENCY = 5"

definition DEFAULT_BATCH_SIZE :: int where
  "DEFAULT_BATCH_SIZE = 20"

datatype SessionStatus = Checking | Completed | Cancelled

text \<open>
  \<open>interface CheckSession\<close>. The source's \<open>id\<close> and \<open>status\<close> are \<open>sessionId\<close> and
  \<open>sessionStatus\<close> here: \<open>id\<close> is the identity function of HOL and \<open>status\<close> is the
  field of \<open>ValidationResult\<close>.
\<close>

record CheckSession =
  sessionId :: string
  pageUrl :: string
  links :: "LinkInfo list"
  results :: "ValidationResult list"
  sessionStatus :: SessionStatus
  completedCount :: nat
  startedAt :: timestamp
  completedAt :: "timestamp option"

text \<open>\<open>interface ValidationProgress\<close>, the argument of the progress callback.\<close>

record ValidationProgress =
  total :: nat
  completed :: nat
  current :: "ValidationResult option"

text \<open>\<open>Required<BatchProcessorConfig>\<close>; \<open>requestTimeoutMs\<close> is the source's \<open>timeoutMs\<close>.\<close>

record BatchProcessorConfig =
  concurrency :: int
  batchSize :: int
  requestTimeoutMs :: nat

datatype Error = AlreadyRunning | StorageError

text \<open>
  What the surroundings decide: the replies of the network for each link, which calls of
  \<open>chrome.storage.local.set\<close> reject (by their number), whether \<open>get\<close> rejects, and the
  random part of a session identifier.
\<close>

record Env =
  network :: "LinkInfo \<Rightarrow> Network"
  setRejects :: "nat \<Rightarrow> bool"
  getRejects :: bool
  randomSuffix :: string

text \<open>
  The state the orchestrator works on. The first four fields are the fields of
  \<open>class BatchProcessor\<close> (\<open>abortController\<close> holds the controller's \<open>signal.aborted\<close>,
  \<open>progressCallback\<close> whether a callback is installed). Session objects live in \<open>heap\<close>
  and are referred to by address, since \<open>resume\<close> holds one object under two names.
  \<open>stored\<close> is the value under the session key of \<open>chrome.storage.local\<close>. The remaining
  fields record what an observer sees: every write that reached the store, every progress
  report, every link handed to \<open>validateLink\<close>, and the time.
\<close>

record World =
  config :: BatchProcessorConfig
  abortController :: "bool option"
  currentSession :: "nat option"
  isRunning :: bool
  progressCallback :: bool
  heap :: "nat \<Rightarrow> CheckSession"
  allocated :: nat
  stored :: "CheckSession option"
  setCalls :: nat
  writes :: "CheckSession list"
  reported :: "ValidationProgress list"
  validated :: "LinkInfo list"
  clock :: timestamp

text \<open>\<open>this.abortController?.signal.aborted\<close>.\<close>

definition signalAborted :: "World \<Rightarrow> bool" where
  "signalAborted w = (case abortController w of Some fired \<Rightarrow> fired | None \<Rightarrow> False)"

text \<open>\<open>cancel()\<close>.\<close>

definition cancel :: "World \<Rightarrow> World" where
  "cancel w = (case abortController w of Some fired \<Rightarrow> w\<lparr>abortController := Some True\<rparr> | None \<Rightarrow> w)"

text \<open>
  \<open>saveSession(session)\<close>: the value is serialised when the call is made. \<open>False\<close> is a
  rejected promise.
\<close>

definition saveSession :: "Env \<Rightarrow> CheckSession \<Rightarrow> World \<Rightarrow> bool \<times> World" where
  "saveSession env session w =
     (let w' = w\<lparr>setCalls := setCalls w + 1, clock := clock w + 1\<rparr>
      in if setRejects env (setCalls w) then (False, w')
         else (True, w'\<lparr>stored := Some session, writes := writes w @ [session]\<rparr>))"

definition createSession :: "Env \<Rightarrow> string \<Rightarrow> LinkInfo list \<Rightarrow> timestamp \<Rightarrow> CheckSession" where
  "createSession env page ls now =
     \<lparr>sessionId = ''session-'' @ showNat now @ ''-'' @ randomSuffix env,
      pageUrl = page, links = ls, results = [], sessionStatus = Checking,
      completedCount = 0, startedAt = now, completedAt = None\<rparr>"

section \<open>One batch (processBatch)\<close>

text \<open>
  The state of one \<open>processBatch\<close> call while its tasks run. A task is the closure over
  \<open>(index, link)\<close>; a suspended \<open>acquire\<close> is named by it. \<open>resultSlots\<close> is the local
  array \<open>results\<close> (\<open>None\<close> is a hole). \<open>pending\<close> lists the \<open>validateLink\<close> calls that wait
  for the network, with the instant at which each was made.
\<close>

record Batch =
  world :: World
  semaphore :: "(nat \<times> LinkInfo) Semaphore"
  resultSlots :: "ValidationResult option list"
  completedInBatch :: nat
  pending :: "(nat \<times> LinkInfo \<times> timestamp) list"

text \<open>
  The task calls \<open>validateLink(link, validatorConfig)\<close>, which runs up to its first
  request and then waits.
\<close>

definition beginValidation :: "nat \<times> LinkInfo \<Rightarrow> Batch \<Rightarrow> Batch" where
  "beginValidation task b =
     b\<lparr>pending := pending b @ [(fst task, snd task, clock (world b))],
       world := (world b)\<lparr>validated := validated (world b) @ [snd task]\<rparr>\<rparr>"

text \<open>
  The \<open>finally\<close> block of a task: \<open>semaphore.release()\<close>. A caller that \<open>release\<close> resumes
  continues after its \<open>await semaphore.acquire()\<close>: it reads the signal again and either
  returns, which runs its own \<open>finally\<close>, or begins its validation.
\<close>

function settle :: "Batch \<Rightarrow> Batch" where
  "settle b =
     (case release (semaphore b) of
        (None, s') \<Rightarrow> b\<lparr>semaphore := s'\<rparr>
      | (Some task, s') \<Rightarrow>
          if signalAborted (world b) then settle (b\<lparr>semaphore := s'\<rparr>)
          else beginValidation task (b\<lparr>semaphore := s'\<rparr>))"
  by pat_completeness auto
termination
  by (relation "measure (\<lambda>b. length (waiting (semaphore b)))")
    (auto simp: release_def split: list.splits)

declare settle.simps [simp del]

text \<open>The body of a task from the return of \<open>acquire\<close> on, when \<open>acquire\<close> returned at once.\<close>

definition afterAcquire :: "nat \<times> LinkInfo \<Rightarrow> Batch \<Rightarrow> Batch" where
  "afterAcquire task b =
     (if signalAborted (world b) then settle b else beginValidation task b)"

text \<open>One callback of \<open>batch.map\<close>, up to its first suspension.\<close>

definition dispatch :: "Batch \<Rightarrow> nat \<times> LinkInfo \<Rightarrow> Batch" where
  "dispatch b task =
     (if signalAborted (world b) then b
      else
        (case acquire task (semaphore b) of
           (True, s') \<Rightarrow> afterAcquire task (b\<lparr>semaphore := s'\<rparr>)
         | (False, s') \<Rightarrow> b\<lparr>semaphore := s'\<rparr>))"

text \<open>
  A pending \<open>validateLink\<close> call returns to its task: the task stores the result at its
  index, counts it and reports progress. The task read the signal as not fired just
  before the call; the call reads it again, if its requests fail, at this moment.
\<close>

definition deliver :: "Env \<Rightarrow> nat \<Rightarrow> nat \<Rightarrow> nat \<times> LinkInfo \<times> timestamp \<Rightarrow> Batch \<Rightarrow> Batch" where
  "deliver env startIndex totalLinks call b =
     (case call of (index, link, calledAt) \<Rightarrow>
        (let w = world b;
             validatorConfig =
               \<lparr>timeoutMs = Some (requestTimeoutMs (config w)),
                signal = map_option (AbortSignal False) (abortController w)\<rparr>;
             result = fst (validateLink link validatorConfig calledAt (network env link));
             n = completedInBatch b + 1
         in b\<lparr>resultSlots := (resultSlots b)[index := Some result],
              completedInBatch := n,
              world :=
                (if progressCallback w
                 then w\<lparr>reported := reported w @
                        [\<lparr>total = totalLinks, completed = startIndex + n,
                          current = Some result\<rparr>]\<rparr>
                 else w)\<rparr>))"

text \<open>
  The pending call of the task with index \<open>i\<close> returns, and the task then runs its
  \<open>finally\<close>. An index with no pending call changes nothing.
\<close>

definition complete :: "Env \<Rightarrow> nat \<Rightarrow> nat \<Rightarrow> nat \<Rightarrow> Batch \<Rightarrow> Batch" where
  "complete env startIndex totalLinks i b =
     (case find (\<lambda>p. fst p = i) (pending b) of
        None \<Rightarrow> b
      | Some call \<Rightarrow>
          settle (deliver env startIndex totalLinks call
                    (b\<lparr>pending := filter (\<lambda>p. fst p \<noteq> i) (pending b)\<rparr>)))"

text \<open>
  What happens while the tasks of a batch are suspended: a pending validation returns, or
  \<open>cancel()\<close> is called. Each event takes one tick of the clock.
\<close>

datatype Event = Complete nat | Cancel

definition tick :: "Batch \<Rightarrow> Batch" where
  "tick b = b\<lparr>world := (world b)\<lparr>clock := clock (world b) + 1\<rparr>\<rparr>"

fun handle :: "Env \<Rightarrow> nat \<Rightarrow> nat \<Rightarrow> Batch \<Rightarrow> Event \<Rightarrow> Batch" where
  "handle env startIndex totalLinks b (Complete i) = complete env startIndex totalLinks i (tick b)"
| "handle env startIndex totalLinks b Cancel = (tick b)\<lparr>world := cancel (world (tick b))\<rparr>"

text \<open>Calls and suspended callers still open in a batch.\<close>

definition openTasks :: "Batch \<Rightarrow> nat" where
  "openTasks b = length (pending b) + length (waiting (semaphore b))"

lemma openTasks_settle: "openTasks (settle b) \<le> openTasks b"
proof (induction b rule: settle.induct)
  case (1 b)
  show ?case
  proof (cases "waiting (semaphore b)")
    case Nil
    then show ?thesis
      by (subst settle.simps) (simp add: release_def openTasks_def)
  next
    case (Cons task rest)
    then have rel: "release (semaphore b) = (Some task, (semaphore b)\<lparr>waiting := rest\<rparr>)"
      by (simp add: release_def)
    show ?thesis
    proof (cases "signalAborted (world b)")
      case True
      from "1.IH" [OF rel [symmetric] refl True]
      show ?thesis using Cons True rel
        by (subst settle.simps) (simp add: openTasks_def)
    next
      case False
      then show ?thesis using Cons rel
        by (subst settle.simps) (simp add: openTasks_def beginValidation_def)
    qed
  qed
qed

lemma length_filter_found:
  "find P xs = Some x \<Longrightarrow> length (filter (\<lambda>y. \<not> P y) xs) < length xs"
  by (induction xs) (auto split: if_splits simp: less_Suc_eq_le)

lemma deliver_fields [simp]:
  "pending (deliver env startIndex totalLinks call b) = pending b"
  "semaphore (deliver env startIndex totalLinks call b) = semaphore b"
  by (simp_all add: deliver_def Let_def split: prod.splits)

lemma openTasks_complete:
  assumes "find (\<lambda>p. fst p = i) (pending b) = Some q"
  shows "openTasks (complete env startIndex totalLinks i b) < openTasks b"
proof -
  have "length (filter (\<lambda>p. fst p \<noteq> i) (pending b)) < length (pending b)"
    using length_filter_found [OF assms] by simp
  then have "openTasks (deliver env startIndex totalLinks q
                (b\<lparr>pending := filter (\<lambda>p. fst p \<noteq> i) (pending b)\<rparr>)) < openTasks b"
    by (simp add: openTasks_def)
  with openTasks_settle show ?thesis
    using assms by (simp add: complete_def) (rule le_less_trans)
qed

lemma tick_fields [simp]:
  "pending (tick b) = pending b"
  "semaphore (tick b) = semaphore b"
  "resultSlots (tick b) = resultSlots b"
  "completedInBatch (tick b) = completedInBatch b"
  by (simp_all add: tick_def)

text \<open>
  When the listed events are over, every request still pending is eventually answered or
  times out: the remaining calls return in the order in which they were made.
\<close>

function drain :: "Env \<Rightarrow> nat \<Rightarrow> nat \<Rightarrow> Batch \<Rightarrow> Batch" where
  "drain env startIndex totalLinks b =
     (case pending b of
        [] \<Rightarrow> b
      | call # calls \<Rightarrow>
          drain env startIndex totalLinks (complete env startIndex totalLinks (fst call) (tick b)))"
  by pat_completeness auto
termination
proof (relation "measure (\<lambda>(env, startIndex, totalLinks, b). openTasks b)")
  show "wf (measure (\<lambda>(env, startIndex, totalLinks, b). openTasks b))" by simp
next
  fix env :: Env and startIndex totalLinks :: nat and b :: Batch and call calls
  assume "pending b = call # calls"
  then have "find (\<lambda>p. fst p = fst call) (pending (tick b)) = Some call" by simp
  from openTasks_complete [OF this, of env startIndex totalLinks]
  show "((env, startIndex, totalLinks, complete env startIndex totalLinks (fst call) (tick b)),
         (env, startIndex, totalLinks, b))
        \<in> measure (\<lambda>(env, startIndex, totalLinks, b). openTasks b)"
    by (simp add: openTasks_def)
qed

declare drain.simps [simp del]

text \<open>\<open>results.filter((r) => r !== undefined)\<close>.\<close>

definition definedResults :: "'a option list \<Rightarrow> 'a list" where
  "definedResults slots = map the (filter (\<lambda>r. r \<noteq> None) slots)"

text \<open>
  \<open>processBatch(batch, startIndex, totalLinks)\<close> under the events that occur while it
  runs. \<open>await Promise.all(tasks)\<close> returns when every task has returned; a task left
  suspended in \<open>acquire\<close> with no call pending is never resumed, and then \<open>processBatch\<close>
  does not return (\<open>None\<close>).
\<close>

definition processBatch ::
  "Env \<Rightarrow> Event list \<Rightarrow> LinkInfo list \<Rightarrow> nat \<Rightarrow> nat \<Rightarrow> World
     \<Rightarrow> (ValidationResult list \<times> World) option" where
  "processBatch env events batch startIndex totalLinks w =
     (let created =
            \<lparr>world = w, semaphore = newSemaphore (concurrency (config w)),
             resultSlots = replicate (length batch) None, completedInBatch = 0, pending = []\<rparr>;
          mapped = foldl dispatch created (enumerate 0 batch);
          handled = foldl (handle env startIndex totalLinks) mapped events;
          drained = drain env startIndex totalLinks handled
      in if waiting (semaphore drained) = []
         then Some (definedResults (resultSlots drained), world drained)
         else None)"

section \<open>The batch loop (processLinks)\<close>

text \<open>
  The loop \<open>for (let i = 0; i < links.length; i += batchSize) batches.push(links.slice(i, i + batchSize))\<close>.
  With a batch size that is not positive and a list that is not empty the loop never ends.
\<close>

function sliceFrom :: "nat \<Rightarrow> 'a list \<Rightarrow> nat \<Rightarrow> 'a list list" where
  "sliceFrom n xs i =
     (if i < length xs \<and> 0 < n then take n (drop i xs) # sliceFrom n xs (i + n)
      else [])"
  by pat_completeness auto
termination
  by (relation "measure (\<lambda>(n, xs, i). length xs - i)") auto

declare sliceFrom.simps [simp del]

definition splitBatches :: "int \<Rightarrow> 'a list \<Rightarrow> 'a list list option" where
  "splitBatches n xs =
     (if xs = [] then Some []
      else if n \<le> 0 then None
      else Some (sliceFrom (nat n) xs 0))"

text \<open>
  What happens around one batch: the events while its tasks run, and whether \<open>cancel()\<close>
  is called while the save that follows the batch is pending.
\<close>

type_synonym BatchPlan = "Event list \<times> bool"

definition duringBatch :: "BatchPlan list \<Rightarrow> Event list" where
  "duringBatch plans = (case plans of [] \<Rightarrow> [] | plan # later \<Rightarrow> fst plan)"

definition duringSave :: "BatchPlan list \<Rightarrow> World \<Rightarrow> World" where
  "duringSave plans w =
     (case plans of [] \<Rightarrow> w | plan # later \<Rightarrow> if snd plan then cancel w else w)"

text \<open>
  The second loop of \<open>processLinks\<close>, over the batches that remain, each with its plan.
  \<open>acc\<close> is the local \<open>results\<close>.
\<close>

fun processBatches ::
  "Env \<Rightarrow> nat \<Rightarrow> nat \<Rightarrow> BatchPlan list \<Rightarrow> LinkInfo list list \<Rightarrow> ValidationResult list \<Rightarrow> World
     \<Rightarrow> ((Error + ValidationResult list) \<times> World) option" where
  "processBatches env startIndex totalLinks plans [] acc w = Some (Inr acc, w)"
| "processBatches env startIndex totalLinks plans (batch # rest) acc w =
     (if signalAborted w then Some (Inr acc, w)
      else
        (case processBatch env (duringBatch plans) batch (startIndex + length acc) totalLinks w of
           None \<Rightarrow> None
         | Some (batchResults, w1) \<Rightarrow>
             (case currentSession w1 of
                None \<Rightarrow>
                  processBatches env startIndex totalLinks (tl plans) rest (acc @ batchResults) w1
              | Some a \<Rightarrow>
                  (let session = heap w1 a;
                       w2 = w1\<lparr>heap := (heap w1)
                              (a := session
                                 \<lparr>results := take startIndex (results session) @ acc @ batchResults,
                                  completedCount := startIndex + length (acc @ batchResults)\<rparr>)\<rparr>
                   in case saveSession env (heap w2 a) w2 of
                        (False, w3) \<Rightarrow> Some (Inl StorageError, duringSave plans w3)
                      | (True, w3) \<Rightarrow>
                          processBatches env startIndex totalLinks (tl plans) rest
                            (acc @ batchResults) (duringSave plans w3)))))"

definition processLinks ::
  "Env \<Rightarrow> BatchPlan list \<Rightarrow> LinkInfo list \<Rightarrow> World
     \<Rightarrow> ((Error + ValidationResult list) \<times> World) option" where
  "processLinks env plans ls w =
     (let totalLinks = (case currentSession w of Some a \<Rightarrow> length (links (heap w a))
                        | None \<Rightarrow> length ls);
          startIndex = (case currentSession w of Some a \<Rightarrow> completedCount (heap w a)
                        | None \<Rightarrow> 0)
      in case splitBatches (batchSize (config w)) ls of
           None \<Rightarrow> None
         | Some batches \<Rightarrow> processBatches env startIndex totalLinks plans batches [] w)"

section \<open>Starting, resuming, cancelling (BatchProcessor)\<close>

text \<open>
  The \<open>catch\<close> block shared by \<open>start\<close> and \<open>resume\<close>: it rethrows the error it caught, or
  the error of its own save when that save rejects.
\<close>

definition handleCancellation :: "Env \<Rightarrow> Error \<Rightarrow> World \<Rightarrow> Error \<times> World" where
  "handleCancellation env e w =
     (if signalAborted w then
        (case currentSession w of
           None \<Rightarrow> (e, w)
         | Some a \<Rightarrow>
             (let w1 = w\<lparr>heap := (heap w)(a := (heap w a)\<lparr>sessionStatus := Cancelled\<rparr>)\<rparr>
              in case saveSession env (heap w1 a) w1 of
                   (True, w2) \<Rightarrow> (e, w2)
                 | (False, w2) \<Rightarrow> (StorageError, w2)))
      else (e, w))"

text \<open>The \<open>finally\<close> block shared by \<open>start\<close> and \<open>resume\<close>.\<close>

definition finallyReset :: "World \<Rightarrow> World" where
  "finallyReset w = w\<lparr>isRunning := False, abortController := None\<rparr>"

text \<open>
  What happens around one run of \<open>start\<close> besides the network's replies: whether
  \<open>cancel()\<close> is called while the initial save is pending, and the plan of each batch.
\<close>

record Schedule =
  cancelledEarly :: bool
  batchPlans :: "BatchPlan list"

text \<open>
  \<open>start(pageUrl, links)\<close>. \<open>None\<close>: the call never returns. \<open>Inl\<close>: the promise rejects.
  The first save is outside the \<open>try\<close>; its rejection skips \<open>catch\<close> and \<open>finally\<close>.
\<close>

definition start ::
  "Env \<Rightarrow> Schedule \<Rightarrow> string \<Rightarrow> LinkInfo list \<Rightarrow> World
     \<Rightarrow> ((Error + ValidationResult list) \<times> World) option" where
  "start env schedule page ls w =
     (if isRunning w then Some (Inl AlreadyRunning, w)
      else
        (let a = allocated w;
             w1 = w\<lparr>heap := (heap w)(a := createSession env page ls (clock w)),
                    allocated := a + 1,
                    currentSession := Some a,
                    abortController := Some False,
                    isRunning := True\<rparr>
         in case saveSession env (heap w1 a) w1 of
              (False, w2) \<Rightarrow> Some (Inl StorageError, w2)
            | (True, w2) \<Rightarrow>
                (case processLinks env (batchPlans schedule) ls
                        (if cancelledEarly schedule then cancel w2 else w2) of
                   None \<Rightarrow> None
                 | Some (Inl e, w3) \<Rightarrow>
                     (case handleCancellation env e w3 of
                        (e', w4) \<Rightarrow> Some (Inl e', finallyReset w4))
                 | Some (Inr rs, w3) \<Rightarrow>
                     (case currentSession w3 of
                        None \<Rightarrow> Some (Inr rs, finallyReset w3)
                      | Some c \<Rightarrow>
                          (let w4 = w3\<lparr>heap := (heap w3)
                                      (c := (heap w3 c)\<lparr>sessionStatus := Completed,
                                                        completedAt := Some (clock w3)\<rparr>)\<rparr>
                           in case saveSession env (heap w4 c) w4 of
                                (True, w5) \<Rightarrow> Some (Inr rs, finallyReset w5)
                              | (False, w5) \<Rightarrow>
                                  (case handleCancellation env StorageError w5 of
                                     (e', w6) \<Rightarrow> Some (Inl e', finallyReset w6)))))))"

text \<open>
  \<open>resume()\<close>. The result \<open>Inr None\<close> is the source's \<open>null\<close>. The object that
  \<open>loadSession\<close> returns is bound to the local \<open>session\<close> and to \<open>this.currentSession\<close>:
  one address, read under the first name after \<open>processLinks\<close> has written under the
  second.
\<close>

definition resume ::
  "Env \<Rightarrow> BatchPlan list \<Rightarrow> World
     \<Rightarrow> ((Error + ValidationResult list option) \<times> World) option" where
  "resume env plans w =
     (if isRunning w then Some (Inl AlreadyRunning, w)
      else if getRejects env then Some (Inl StorageError, w)
      else
        (case stored w of
           None \<Rightarrow> Some (Inr None, w)
         | Some loaded \<Rightarrow>
             if sessionStatus loaded \<noteq> Checking then Some (Inr None, w)
             else
               (let session = allocated w;
                    w1 = w\<lparr>heap := (heap w)(session := loaded),
                           allocated := session + 1,
                           currentSession := Some session,
                           abortController := Some False,
                           isRunning := True\<rparr>;
                    remainingLinks =
                      drop (completedCount (heap w1 session)) (links (heap w1 session))
                in case processLinks env plans remainingLinks w1 of
                     None \<Rightarrow> None
                   | Some (Inl e, w2) \<Rightarrow>
                       (case handleCancellation env e w2 of
                          (e', w3) \<Rightarrow> Some (Inl e', finallyReset w3))
                   | Some (Inr newResults, w2) \<Rightarrow>
                       (let allResults = results (heap w2 session) @ newResults
                        in case currentSession w2 of
                             None \<Rightarrow> Some (Inr (Some allResults), finallyReset w2)
                           | Some c \<Rightarrow>
                               (let w3 = w2\<lparr>heap := (heap w2)
                                           (c := (heap w2 c)\<lparr>sessionStatus := Completed,
                                                             results := allResults,
                                                             completedAt := Some (clock w2)\<rparr>)\<rparr>
                                in case saveSession env (heap w3 c) w3 of
                                     (True, w4) \<Rightarrow> Some (Inr (Some allResults), finallyReset w4)
                                   | (False, w4) \<Rightarrow>
                                       (case handleCancellation env StorageError w4 of
                                          (e', w5) \<Rightarrow> Some (Inl e', finallyReset w5)))))))"

text \<open>
  \<open>new BatchProcessor(config)\<close> beside an empty store, at time 0. No session object exists
  yet; the heap's initial content is never read.
\<close>

definition noSession :: CheckSession where
  "noSession =
     \<lparr>sessionId = [], pageUrl = [], links = [], results = [], sessionStatus = Cancelled,
      completedCount = 0, startedAt = 0, completedAt = None\<rparr>"

definition newBatchProcessor :: "int option \<Rightarrow> int option \<Rightarrow> nat option \<Rightarrow> World" where
  "newBatchProcessor c b t =
     \<lparr>config =
        \<lparr>concurrency = (case c of Some n \<Rightarrow> n | None \<Rightarrow> DEFAULT_CONCURRENCY),
         batchSize = (case b of Some n \<Rightarrow> n | None \<Rightarrow> DEFAULT_BATCH_SIZE),
         requestTimeoutMs = (case t of Some n \<Rightarrow> n | None \<Rightarrow> 10000)\<rparr>,
      abortController = None, currentSession = None, isRunning = False,
      progressCallback = False, heap = (\<lambda>a. noSession), allocated = 0, stored = None,
      setCalls = 0, writes = [], reported = [], validated = [], clock = 0\<rparr>"

section \<open>Invariants of a running batch\<close>

text \<open>The part of the state that no task of a batch touches.\<close>

definition fixedPart ::
  "World \<Rightarrow> BatchProcessorConfig \<times> nat option \<times> bool \<times> bool \<times> (nat \<Rightarrow> CheckSession) \<times> nat
     \<times> CheckSession option \<times> nat \<times> CheckSession list" where
  "fixedPart w =
     (config w, currentSession w, isRunning w, progressCallback w, heap w, allocated w,
      stored w, setCalls w, writes w)"

text \<open>
  Every task of the batch, suspended or waiting for the network, carries its own index and
  the link at that index, and a filled slot holds an outcome of the link at its index.
\<close>

definition ordInv :: "LinkInfo list \<Rightarrow> Batch \<Rightarrow> bool" where
  "ordInv batch b \<longleftrightarrow>
     length (resultSlots b) = length batch
     \<and> (\<forall>p \<in> set (pending b). fst p < length batch \<and> fst (snd p) = batch ! fst p)
     \<and> (\<forall>t \<in> set (waiting (semaphore b)). fst t < length batch \<and> snd t = batch ! fst t)
     \<and> (\<forall>i < length batch. \<forall>r. resultSlots b ! i = Some r \<longrightarrow> LinkInfo.truncate r = batch ! i)"

text \<open>
  While the signal has not fired: no caller is suspended unless a call is pending, and
  each of the first \<open>k\<close> tasks has its slot filled, or its call pending, or is suspended.
\<close>

definition progInv :: "nat \<Rightarrow> Batch \<Rightarrow> bool" where
  "progInv k b \<longleftrightarrow>
     \<not> signalAborted (world b)
     \<and> 0 \<le> permits (semaphore b)
     \<and> (permits (semaphore b) \<le> 0 \<longrightarrow> pending b \<noteq> [])
     \<and> (waiting (semaphore b) \<noteq> [] \<longrightarrow> pending b \<noteq> [])
     \<and> (\<forall>i < k. resultSlots b ! i \<noteq> None \<or> i \<in> fst ` set (pending b)
                 \<or> i \<in> fst ` set (waiting (semaphore b)))"

text \<open>
  The links that a batch has handed to \<open>validateLink\<close>, after those handed over
  \<open>before\<close> it began, are links of the batch, and so are the links of its suspended tasks.
\<close>

definition valInv :: "LinkInfo list \<Rightarrow> LinkInfo list \<Rightarrow> Batch \<Rightarrow> bool" where
  "valInv before batch b \<longleftrightarrow>
     (\<exists>vs. validated (world b) = before @ vs \<and> set vs \<subseteq> set batch)
     \<and> (\<forall>t \<in> set (waiting (semaphore b)). snd t \<in> set batch)"

text \<open>What a session must satisfy to be a faithful record of a run over \<open>ls\<close>.\<close>

definition faithful :: "LinkInfo list \<Rightarrow> CheckSession \<Rightarrow> bool" where
  "faithful ls s \<longleftrightarrow>
     links s = ls \<and> completedCount s = length (results s)
     \<and> subseq (map LinkInfo.truncate (results s)) ls"

section \<open>Fixtures for concrete runs\<close>

text \<open>Link number \<open>k\<close> of a test page, and surroundings in which every request is answered
  200 and every storage call succeeds.\<close>

definition testLink :: "nat \<Rightarrow> LinkInfo" where
  "testLink k =
     \<lparr>url = ''http://a/'' @ showNat k, tagName = TagA, text = None,
      elementId = ''lc-'' @ showNat k\<rparr>"

text \<open>A host that cannot be reached, and a server that refuses HEAD and serves GET.\<close>

definition unreachable :: Network where
  "unreachable method = Rejected (JsError ''TypeError'' ''Failed to fetch'')"

definition refusesHead :: Network where
  "refusesHead method = (case method of HEAD \<Rightarrow> Response 405 | GET \<Rightarrow> Response 200)"

definition calmEnv :: Env where
  "calmEnv =
     \<lparr>network = (\<lambda>link method. Response 200), setRejects = (\<lambda>n. False),
      getRejects = False, randomSuffix = ''r4nd0m''\<rparr>"

text \<open>
  The store after a run over 25 links was interrupted behind its first checkpoint: 20
  outcomes, a count of 20, status \<open>checking\<close>; and a fresh processor beside that store.
\<close>

definition okOutcome :: "LinkInfo \<Rightarrow> ValidationResult" where
  "okOutcome link = baseResult link 1 (Some 200) Success ''OK''"

definition interruptedSession :: CheckSession where
  "interruptedSession =
     \<lparr>sessionId = ''session-0-r4nd0m'', pageUrl = ''http://p/'',
      links = map testLink [0..<25], results = map okOutcome (map testLink [0..<20]),
      sessionStatus = Checking, completedCount = 20, startedAt = 0, completedAt = None\<rparr>"

definition restartedWorld :: World where
  "restartedWorld = (newBatchProcessor None None None)\<lparr>stored := Some interruptedSession\<rparr>"

section \<open>Status classes\<close>

text \<open>
  C2. For every HTTP status code \<open>c\<close>, \<open>classifyStatus\<close> answers \<open>success\<close> exactly on
  \<open>[200, 300)\<close>, \<open>redirect\<close> exactly on \<open>[300, 400)\<close>, \<open>client_error\<close> exactly on
  \<open>[400, 500)\<close>, \<open>server_error\<close> exactly from 500 upwards, and \<open>network_error\<close> for every
  code below 200 and for the absent status.
\<close>

theorem classifyStatus_ranges:
  "(classifyStatus (Some c) = Success \<longleftrightarrow> 200 \<le> c \<and> c < 300)
   \<and> (classifyStatus (Some c) = Redirect \<longleftrightarrow> 300 \<le> c \<and> c < 400)
   \<and> (classifyStatus (Some c) = ClientError \<longleftrightarrow> 400 \<le> c \<and> c < 500)
   \<and> (classifyStatus (Some c) = ServerError \<longleftrightarrow> 500 \<le> c)
   \<and> (c < 200 \<longrightarrow> classifyStatus (Some c) = NetworkError)
   \<and> classifyStatus None = NetworkError"
  by simp

theorem classifyStatus_ranges_witness:
  "classifyStatus (Some 204) = Success \<and> classifyStatus (Some 302) = Redirect
   \<and> classifyStatus (Some 404) = ClientError \<and> classifyStatus (Some 503) = ServerError
   \<and> (199::int) < 200 \<and> classifyStatus (Some 199) = NetworkError"
  using classifyStatus_ranges [of 204] classifyStatus_ranges [of 302]
    classifyStatus_ranges [of 404] classifyStatus_ranges [of 503]
    classifyStatus_ranges [of 199]
  by simp

section \<open>The validator's outcomes\<close>

lemma validateLink_copies:
  "LinkInfo.truncate (fst (validateLink link cfg now net)) = link"
  by (simp add: validateLink_def processResult_def baseResult_def Let_def LinkInfo.truncate_def
      split: FetchResult.splits option.splits)

lemma validateLink_both_rejected:
  assumes "net HEAD = Rejected e" and "net GET = Rejected e'"
  shows "fst (validateLink link cfg now net) =
     (if firedOnEntry cfg \<or> firedOnFailure cfg
        then baseResult link now None NetworkError ''Cancelled''
      else if isTimeout e' then baseResult link now None Timeout ''Request Timeout''
      else baseResult link now None NetworkError
             (if message e' = [] then ''Network Error'' else message e'))"
  using assms
  by (simp add: validateLink_def processResult_def Let_def)

lemma validateLink_retry_effects:
  assumes "net HEAD = Response st" and "st = 405 \<or> st = 400" and "\<not> firedOnEntry cfg"
  shows "\<exists>ms. snd (validateLink link cfg now net) =
      [CreateTimeoutController 0 ms, PerformRequest (url link) HEAD, ClearTimeout 0,
       CreateTimeoutController 1 ms, PerformRequest (url link) GET, ClearTimeout 1,
       ClearTimeout 0]"
  using assms
  by (auto simp: validateLink_def shouldFallbackToGet_def Let_def split: FetchResult.splits)

lemma validateLink_retry_result:
  assumes "net HEAD = Response st" and "st = 405 \<or> st = 400" and "\<not> firedOnEntry cfg"
    and "net GET = Response st'"
  shows "fst (validateLink link cfg now net) =
        baseResult link now (Some st') (classifyStatus (Some st'))
          (getStatusText (Some st') (classifyStatus (Some st')))"
  using assms
  by (auto simp: validateLink_def processResult_def shouldFallbackToGet_def Let_def)

text \<open>
  C5, as the code has it. \<open>validateLink\<close> is a total function into outcomes: every
  rejection of a request is caught inside it. When neither the HEAD attempt nor the GET
  retry obtains a response, the outcome has no status and is, in this order:
  \<open>network_error\<close> described as "Cancelled" when the external signal has fired;
  \<open>timeout\<close> described as "Request Timeout" when the name or message of the last failure
  (that of the GET retry) signals abort or timeout; \<open>network_error\<close> carrying that failure's
  message, or "Network Error" when the message is empty.
\<close>

theorem validateLink_failure_outcome:
  assumes "net HEAD = Rejected e" and "net GET = Rejected e'"
  shows "fst (validateLink link cfg now net) =
      baseResult link now None
        (if isTimeout e' \<and> \<not> (firedOnEntry cfg \<or> firedOnFailure cfg) then Timeout
         else NetworkError)
        (if firedOnEntry cfg \<or> firedOnFailure cfg then ''Cancelled''
         else if isTimeout e' then ''Request Timeout''
         else if message e' = [] then ''Network Error''
         else message e')"
  using validateLink_both_rejected [where net = net, OF assms, of link cfg now]
  by simp

theorem validateLink_failure_outcome_witness:
  "unreachable HEAD = Rejected (JsError ''TypeError'' ''Failed to fetch'')
   \<and> unreachable GET = Rejected (JsError ''TypeError'' ''Failed to fetch'')
   \<and> fst (validateLink (testLink 1) \<lparr>timeoutMs = None, signal = None\<rparr> 5 unreachable)
        = baseResult (testLink 1) 5 None NetworkError ''Failed to fetch''"
  using validateLink_failure_outcome [of unreachable "JsError ''TypeError'' ''Failed to fetch''"
      "JsError ''TypeError'' ''Failed to fetch''" "testLink 1"
      "\<lparr>timeoutMs = None, signal = None\<rparr>" 5]
  by (simp add: unreachable_def isTimeout_def firedOnEntry_def firedOnFailure_def)

text \<open>
  The claim as stated fails where the external signal fires while the requests are
  pending: both attempts are rejected with "Failed to fetch", the outcome is
  \<open>network_error\<close>, and its description is "Cancelled", not the failure's message.
\<close>

theorem validateLink_cancelled_counterexample:
  "unreachable HEAD = Rejected (JsError ''TypeError'' ''Failed to fetch'')
   \<and> unreachable GET = Rejected (JsError ''TypeError'' ''Failed to fetch'')
   \<and> statusCategory (fst (validateLink (testLink 1)
        \<lparr>timeoutMs = None, signal = Some (AbortSignal False True)\<rparr> 5 unreachable))
       = NetworkError
   \<and> statusText (fst (validateLink (testLink 1)
        \<lparr>timeoutMs = None, signal = Some (AbortSignal False True)\<rparr> 5 unreachable))
       = ''Cancelled''
   \<and> statusText (fst (validateLink (testLink 1)
        \<lparr>timeoutMs = None, signal = Some (AbortSignal False True)\<rparr> 5 unreachable))
       \<noteq> message (JsError ''TypeError'' ''Failed to fetch'')
   \<and> message (JsError ''TypeError'' ''Failed to fetch'') \<noteq> []"
  by (simp add: validateLink_def processResult_def baseResult_def firedOnEntry_def
      firedOnFailure_def unreachable_def Let_def)

text \<open>
  C6. When the HEAD probe of a link answers 405 or 400, the validator arms a second timer
  with a second controller and issues a GET request; when that request is answered, the
  outcome carries the status of the GET response and its classification. A 405 followed
  by a 200 is a \<open>success\<close>.
\<close>

theorem head_unsupported_retries_with_get:
  assumes "net HEAD = Response st" and "st = 405 \<or> st = 400" and "\<not> firedOnEntry cfg"
  shows "(\<exists>ms. snd (validateLink link cfg now net) =
            [CreateTimeoutController 0 ms, PerformRequest (url link) HEAD, ClearTimeout 0,
             CreateTimeoutController 1 ms, PerformRequest (url link) GET, ClearTimeout 1,
             ClearTimeout 0])
     \<and> (\<forall>st'. net GET = Response st' \<longrightarrow>
           status (fst (validateLink link cfg now net)) = Some st'
           \<and> statusCategory (fst (validateLink link cfg now net)) = classifyStatus (Some st')
           \<and> statusText (fst (validateLink link cfg now net))
               = getStatusText (Some st') (classifyStatus (Some st')))
     \<and> (net GET = Response 200 \<longrightarrow>
           statusCategory (fst (validateLink link cfg now net)) = Success)"
proof (intro conjI allI impI)
  show "\<exists>ms. snd (validateLink link cfg now net) =
            [CreateTimeoutController 0 ms, PerformRequest (url link) HEAD, ClearTimeout 0,
             CreateTimeoutController 1 ms, PerformRequest (url link) GET, ClearTimeout 1,
             ClearTimeout 0]"
    by (rule validateLink_retry_effects [where net = net, OF assms])
next
  fix st' assume "net GET = Response st'"
  from validateLink_retry_result [where net = net, OF assms this, of link now]
  show "status (fst (validateLink link cfg now net)) = Some st'"
    and "statusCategory (fst (validateLink link cfg now net)) = classifyStatus (Some st')"
    and "statusText (fst (validateLink link cfg now net))
               = getStatusText (Some st') (classifyStatus (Some st'))"
    by (simp_all add: baseResult_def)
next
  assume "net GET = Response 200"
  from validateLink_retry_result [where net = net, OF assms this, of link now]
  show "statusCategory (fst (validateLink link cfg now net)) = Success"
    by (simp add: baseResult_def)
qed

theorem head_unsupported_retries_with_get_witness:
  "refusesHead HEAD = Response 405 \<and> refusesHead GET = Response 200
   \<and> snd (validateLink (testLink 1) \<lparr>timeoutMs = None, signal = None\<rparr> 5 refusesHead)
       = [CreateTimeoutController 0 10000, PerformRequest (url (testLink 1)) HEAD, ClearTimeout 0,
          CreateTimeoutController 1 10000, PerformRequest (url (testLink 1)) GET, ClearTimeout 1,
          ClearTimeout 0]
   \<and> status (fst (validateLink (testLink 1) \<lparr>timeoutMs = None, signal = None\<rparr> 5 refusesHead))
       = Some 200
   \<and> statusCategory (fst (validateLink (testLink 1) \<lparr>timeoutMs = None, signal = None\<rparr> 5
        refusesHead)) = Success"
proof -
  have h: "refusesHead HEAD = Response 405" and g: "refusesHead GET = Response 200"
    by (simp_all add: refusesHead_def)
  have e: "\<not> firedOnEntry \<lparr>timeoutMs = None, signal = None\<rparr>"
    by (simp add: firedOnEntry_def)
  have "snd (validateLink (testLink 1) \<lparr>timeoutMs = None, signal = None\<rparr> 5 refusesHead)
       = [CreateTimeoutController 0 10000, PerformRequest (url (testLink 1)) HEAD, ClearTimeout 0,
          CreateTimeoutController 1 10000, PerformRequest (url (testLink 1)) GET, ClearTimeout 1,
          ClearTimeout 0]"
    by (simp add: validateLink_def refusesHead_def shouldFallbackToGet_def firedOnEntry_def
        DEFAULT_TIMEOUT_MS_def Let_def)
  with head_unsupported_retries_with_get [where net = refusesHead, OF h _ e, of "testLink 1" 5] h g
  show ?thesis by simp
qed

section \<open>The semaphore's contract\<close>










section \<open>CSV cells\<close>

lemma startsWith_Nil [simp]: "startsWith s [] = True"
  by (cases s) simp_all

lemma includesStr_single: "includesStr s [c] \<longleftrightarrow> c \<in> set s"
  by (induction s) auto

lemma replaceAll_concat:
  "replaceAll c r s = concat (map (\<lambda>x. if x = c then r else [x]) s)"
  by (induction s) auto

lemma showNat_in: "set (showNat n) \<subseteq> set ds" if "ds = ''0123456789''"
proof (induction n rule: showNat.induct)
  case (1 n)
  have len: "length ds = 10" using that by simp
  have eq: "showNat n = (if n < 10 then [ds ! n] else showNat (n div 10) @ [ds ! (n mod 10)])"
    unfolding that by (rule showNat.simps)
  show ?case
  proof (cases "n < 10")
    case True
    then have "ds ! n \<in> set ds" using len by (intro nth_mem) simp
    with True show ?thesis by (simp only: eq if_True) simp
  next
    case False
    have "ds ! (n mod 10) \<in> set ds" using len by (intro nth_mem) simp
    with False 1 [OF False] show ?thesis by (simp only: eq if_False) simp
  qed
qed

lemma showInt_chars: "set (showInt i) \<subseteq> set ''-0123456789''"
proof -
  have sub: "set (showNat k) \<subseteq> set ''-0123456789''" for k
    using showNat_in [OF refl, of k] set_subset_Cons [of "''0123456789''" "CHR ''-''"]
    by (rule subset_trans)
  show ?thesis
  proof (cases "i < 0")
    case True
    then have "showInt i = CHR ''-'' # showNat (nat (- i))" by (simp add: showInt_def)
    moreover have "CHR ''-'' \<in> set ''-0123456789''" by (simp only: list.set insertI1)
    ultimately show ?thesis using sub [of "nat (- i)"] by (simp only: list.set insert_subset)
  next
    case False
    then have "showInt i = showNat (nat i)" by (simp add: showInt_def)
    then show ?thesis using sub [of "nat i"] by (simp only:)
  qed
qed

lemma showInt_plain:
  "\<not> includesStr (showInt i) SEPARATOR \<and> \<not> includesStr (showInt i) [dquote]
   \<and> \<not> includesStr (showInt i) [CHR 0x0A] \<and> \<not> includesStr (showInt i) [CHR 0x0D]"
proof -
  have out: "c \<notin> set (showInt i)" if "c \<notin> set ''-0123456789''" for c
    using showInt_chars [of i] that by (meson subsetD)
  have "CHR '','' \<notin> set ''-0123456789''" by simp
  moreover have "CHR 0x22 \<notin> set ''-0123456789''" by simp
  moreover have "CHR 0x0A \<notin> set ''-0123456789''" by simp
  moreover have "CHR 0x0D \<notin> set ''-0123456789''" by simp
  ultimately show ?thesis
    unfolding SEPARATOR_def dquote_def includesStr_single
    using out by (intro conjI) (rule out, assumption)+
qed

text \<open>
  C9. A null cell is written as the empty string. A string cell that contains a comma, a
  double quote, a carriage return or a line feed is written between double quotes with
  each of its double quotes doubled; any other string cell is written unchanged. A number
  cell is written as its decimal rendering, which never needs quoting.
\<close>

theorem escapeCSVValue_cells:
  "escapeCSVValue CsvNull = []
   \<and> escapeCSVValue (CsvString s) =
       (if CHR '','' \<in> set s \<or> CHR 0x22 \<in> set s \<or> CHR 0x0D \<in> set s \<or> CHR 0x0A \<in> set s
        then [CHR 0x22] @ concat (map (\<lambda>x. if x = CHR 0x22 then [CHR 0x22, CHR 0x22] else [x]) s)
             @ [CHR 0x22]
        else s)
   \<and> escapeCSVValue (CsvNumber n) = showInt n"
proof (intro conjI)
  show "escapeCSVValue CsvNull = []"
    by (simp add: escapeCSVValue_def)
  show "escapeCSVValue (CsvNumber n) = showInt n"
    using showInt_plain [of n] by (simp add: escapeCSVValue_def)
  show "escapeCSVValue (CsvString s) =
       (if CHR '','' \<in> set s \<or> CHR 0x22 \<in> set s \<or> CHR 0x0D \<in> set s \<or> CHR 0x0A \<in> set s
        then [CHR 0x22] @ concat (map (\<lambda>x. if x = CHR 0x22 then [CHR 0x22, CHR 0x22] else [x]) s)
             @ [CHR 0x22]
        else s)"
    by (simp add: escapeCSVValue_def includesStr_single replaceAll_concat SEPARATOR_def
        dquote_def disj_ac)
qed

theorem escapeCSVValue_cells_witness:
  "escapeCSVValue (CsvString [CHR ''a'', CHR '','', CHR 0x22, CHR ''b''])
     = [CHR 0x22, CHR ''a'', CHR '','', CHR 0x22, CHR 0x22, CHR ''b'', CHR 0x22]
   \<and> escapeCSVValue (CsvString ''plain'') = ''plain''"
  using escapeCSVValue_cells [of "[CHR ''a'', CHR '','', CHR 0x22, CHR ''b'']"]
    escapeCSVValue_cells [of "''plain''"]
  by simp

section \<open>What a batch leaves alone\<close>

lemma settle_unfold:
  "settle b =
     (case waiting (semaphore b) of
        [] \<Rightarrow> b\<lparr>semaphore := (semaphore b)\<lparr>permits := permits (semaphore b) + 1\<rparr>\<rparr>
      | task # rest \<Rightarrow>
          if signalAborted (world b) then settle (b\<lparr>semaphore := (semaphore b)\<lparr>waiting := rest\<rparr>\<rparr>)
          else beginValidation task (b\<lparr>semaphore := (semaphore b)\<lparr>waiting := rest\<rparr>\<rparr>))"
  by (subst settle.simps) (simp add: release_def split: list.splits)

lemma beginValidation_fields [simp]:
  "fixedPart (world (beginValidation task b)) = fixedPart (world b)"
  "abortController (world (beginValidation task b)) = abortController (world b)"
  "signalAborted (world (beginValidation task b)) = signalAborted (world b)"
  "semaphore (beginValidation task b) = semaphore b"
  "resultSlots (beginValidation task b) = resultSlots b"
  "pending (beginValidation task b) = pending b @ [(fst task, snd task, clock (world b))]"
  by (simp_all add: beginValidation_def fixedPart_def signalAborted_def)

lemma settle_world [simp]:
  "fixedPart (world (settle b)) = fixedPart (world b)"
  "abortController (world (settle b)) = abortController (world b)"
  "resultSlots (settle b) = resultSlots b"
proof (induction b rule: settle.induct)
  case (1 b)
  {
    case 1
    show ?case
      using "1.IH"(1) by (subst settle_unfold) (simp add: release_def signalAborted_def split: list.splits)
  next
    case 2
    show ?case
      using "1.IH"(2) by (subst settle_unfold) (simp add: release_def signalAborted_def split: list.splits)
  next
    case 3
    show ?case
      using "1.IH"(3) by (subst settle_unfold) (simp add: release_def split: list.splits)
  }
qed


lemma signalAborted_cong: "abortController w = abortController w' \<Longrightarrow> signalAborted w = signalAborted w'"
  by (simp add: signalAborted_def)

lemma settle_aborted [simp]: "signalAborted (world (settle b)) = signalAborted (world b)"
  by (rule signalAborted_cong) simp

lemma afterAcquire_world [simp]:
  "fixedPart (world (afterAcquire task b)) = fixedPart (world b)"
  "abortController (world (afterAcquire task b)) = abortController (world b)"
  "resultSlots (afterAcquire task b) = resultSlots b"
  by (simp_all add: afterAcquire_def)

lemma dispatch_world [simp]:
  "fixedPart (world (dispatch b task)) = fixedPart (world b)"
  "abortController (world (dispatch b task)) = abortController (world b)"
  "resultSlots (dispatch b task) = resultSlots b"
  by (simp_all add: dispatch_def acquire_def)

lemma deliver_world [simp]:
  "fixedPart (world (deliver env startIndex totalLinks call b)) = fixedPart (world b)"
  "abortController (world (deliver env startIndex totalLinks call b)) = abortController (world b)"
  by (simp_all add: deliver_def Let_def fixedPart_def split: prod.splits)

lemma complete_world [simp]:
  "fixedPart (world (complete env startIndex totalLinks i b)) = fixedPart (world b)"
  "abortController (world (complete env startIndex totalLinks i b)) = abortController (world b)"
  by (simp_all add: complete_def split: option.splits)

lemma tick_world [simp]:
  "fixedPart (world (tick b)) = fixedPart (world b)"
  "abortController (world (tick b)) = abortController (world b)"
  by (simp_all add: tick_def fixedPart_def)

lemma cancel_fixed [simp]: "fixedPart (cancel w) = fixedPart w"
  by (simp add: cancel_def fixedPart_def split: option.splits)

lemma handle_world [simp]:
  "fixedPart (world (handle env startIndex totalLinks b ev)) = fixedPart (world b)"
  by (cases ev) simp_all

lemma drain_world [simp]:
  "fixedPart (world (drain env startIndex totalLinks b)) = fixedPart (world b)"
  "abortController (world (drain env startIndex totalLinks b)) = abortController (world b)"
proof (induction env startIndex totalLinks b rule: drain.induct)
  case (1 env startIndex totalLinks b)
  {
    case 1
    show ?case using "1.IH"(1)
      by (subst drain.simps) (simp split: list.splits)
  next
    case 2
    show ?case using "1.IH"(2)
      by (subst drain.simps) (simp split: list.splits)
  }
qed

lemma drain_pending [simp]: "pending (drain env startIndex totalLinks b) = []"
proof (induction env startIndex totalLinks b rule: drain.induct)
  case (1 env startIndex totalLinks b)
  then show ?case
    by (subst drain.simps) (simp split: list.splits)
qed

lemma foldl_dispatch_world [simp]:
  "fixedPart (world (foldl dispatch b tasks)) = fixedPart (world b)"
  "abortController (world (foldl dispatch b tasks)) = abortController (world b)"
  by (induction tasks arbitrary: b) simp_all

lemma foldl_handle_world [simp]:
  "fixedPart (world (foldl (handle env startIndex totalLinks) b evs)) = fixedPart (world b)"
  by (induction evs arbitrary: b) simp_all


section \<open>Order\<close>

lemma definedResults_simps [simp]:
  "definedResults [] = []"
  "definedResults (None # slots) = definedResults slots"
  "definedResults (Some x # slots) = x # definedResults slots"
  by (simp_all add: definedResults_def)

lemma ordInv_beginValidation:
  "ordInv batch b \<Longrightarrow> fst task < length batch \<Longrightarrow> snd task = batch ! fst task
     \<Longrightarrow> ordInv batch (beginValidation task b)"
  by (auto simp: ordInv_def)

lemma ordInv_settle: "ordInv batch b \<Longrightarrow> ordInv batch (settle b)"
proof (induction b rule: settle.induct)
  case (1 b)
  show ?case
  proof (cases "waiting (semaphore b)")
    case Nil
    with "1.prems" show ?thesis
      by (subst settle_unfold) (simp add: ordInv_def)
  next
    case (Cons task rest)
    let ?b' = "b\<lparr>semaphore := (semaphore b)\<lparr>waiting := rest\<rparr>\<rparr>"
    have inv': "ordInv batch ?b'" and wf: "fst task < length batch" "snd task = batch ! fst task"
      using "1.prems" Cons by (auto simp: ordInv_def)
    show ?thesis
    proof (cases "signalAborted (world b)")
      case True
      have "release (semaphore b) = (Some task, (semaphore b)\<lparr>waiting := rest\<rparr>)"
        using Cons by (simp add: release_def)
      from "1.IH" [OF this [symmetric] refl True inv']
      show ?thesis using Cons True by (subst settle_unfold) simp
    next
      case False
      with Cons ordInv_beginValidation [OF inv' wf] show ?thesis
        by (subst settle_unfold) simp
    qed
  qed
qed

lemma ordInv_dispatch:
  "ordInv batch b \<Longrightarrow> fst task < length batch \<Longrightarrow> snd task = batch ! fst task
     \<Longrightarrow> ordInv batch (dispatch b task)"
proof -
  assume inv: "ordInv batch b" and wf: "fst task < length batch" "snd task = batch ! fst task"
  have a: "ordInv batch (b\<lparr>semaphore := (semaphore b)\<lparr>permits := permits (semaphore b) - 1\<rparr>\<rparr>)"
    using inv by (simp add: ordInv_def)
  have q: "ordInv batch (b\<lparr>semaphore := (semaphore b)\<lparr>waiting := waiting (semaphore b) @ [task]\<rparr>\<rparr>)"
    using inv wf by (auto simp: ordInv_def)
  show ?thesis
    using inv ordInv_settle [OF a] ordInv_beginValidation [OF a wf] q
    by (simp add: dispatch_def acquire_def afterAcquire_def)
qed

lemma ordInv_deliver:
  assumes "ordInv batch b" and "fst call < length batch" and "fst (snd call) = batch ! fst call"
  shows "ordInv batch (deliver env startIndex totalLinks call b)"
proof -
  obtain index link calledAt where call: "call = (index, link, calledAt)"
    by (cases call) auto
  show ?thesis
    using assms
    by (auto simp: call deliver_def Let_def ordInv_def validateLink_copies nth_list_update)
qed

lemma find_SomeD: "find P xs = Some x \<Longrightarrow> x \<in> set xs \<and> P x"
  by (induction xs) (auto split: if_splits)

lemma ordInv_complete: "ordInv batch b \<Longrightarrow> ordInv batch (complete env startIndex totalLinks i b)"
proof -
  assume inv: "ordInv batch b"
  show ?thesis
  proof (cases "find (\<lambda>p. fst p = i) (pending b)")
    case None
    with inv show ?thesis by (simp add: complete_def)
  next
    case (Some call)
    from find_SomeD [OF Some] inv
    have wf: "fst call < length batch" "fst (snd call) = batch ! fst call"
      by (auto simp: ordInv_def)
    have "ordInv batch (b\<lparr>pending := filter (\<lambda>p. fst p \<noteq> i) (pending b)\<rparr>)"
      using inv by (auto simp: ordInv_def)
    from ordInv_settle [OF ordInv_deliver [OF this, of call]] wf Some
    show ?thesis by (simp add: complete_def)
  qed
qed

lemma ordInv_tick [simp]: "ordInv batch (tick b) = ordInv batch b"
  by (simp add: ordInv_def tick_def)

lemma ordInv_handle: "ordInv batch b \<Longrightarrow> ordInv batch (handle env startIndex totalLinks b ev)"
  by (cases ev) (simp_all add: ordInv_complete, simp add: ordInv_def tick_def)

lemma ordInv_drain: "ordInv batch b \<Longrightarrow> ordInv batch (drain env startIndex totalLinks b)"
proof (induction env startIndex totalLinks b rule: drain.induct)
  case (1 env startIndex totalLinks b)
  show ?case
  proof (cases "pending b")
    case Nil
    with "1.prems" show ?thesis by (subst drain.simps) simp
  next
    case (Cons call calls)
    from "1.IH" [OF Cons ordInv_complete] "1.prems" Cons show ?thesis
      by (subst drain.simps) simp
  qed
qed

lemma ordInv_foldl_handle:
  "ordInv batch b \<Longrightarrow> ordInv batch (foldl (handle env startIndex totalLinks) b evs)"
  by (induction evs arbitrary: b) (simp_all add: ordInv_handle)

lemma ordInv_foldl_dispatch:
  "ordInv batch b \<Longrightarrow> \<forall>t \<in> set tasks. fst t < length batch \<and> snd t = batch ! fst t
     \<Longrightarrow> ordInv batch (foldl dispatch b tasks)"
  by (induction tasks arbitrary: b) (simp_all add: ordInv_dispatch)

lemma enumerate_wf: "t \<in> set (enumerate 0 batch) \<Longrightarrow> fst t < length batch \<and> snd t = batch ! fst t"
  by (cases t) (auto simp: in_set_enumerate_eq)



lemma fixedPartD:
  assumes "fixedPart w' = fixedPart w"
  shows "config w' = config w" "currentSession w' = currentSession w" "isRunning w' = isRunning w"
    "progressCallback w' = progressCallback w" "heap w' = heap w" "allocated w' = allocated w"
    "stored w' = stored w" "setCalls w' = setCalls w" "writes w' = writes w"
  using assms by (simp_all add: fixedPart_def)

lemma saveSession_True:
  assumes "saveSession env session w = (True, w')"
  shows "heap w' = heap w" "currentSession w' = currentSession w" "config w' = config w"
    "writes w' = writes w @ [session]" "stored w' = Some session"
    "abortController w' = abortController w" "isRunning w' = isRunning w"
    "allocated w' = allocated w" "validated w' = validated w"
  using assms by (auto simp: saveSession_def Let_def split: if_splits)

lemma saveSession_False:
  assumes "saveSession env session w = (False, w')"
  shows "heap w' = heap w" "currentSession w' = currentSession w" "config w' = config w"
    "writes w' = writes w" "stored w' = stored w"
    "abortController w' = abortController w" "isRunning w' = isRunning w"
    "allocated w' = allocated w" "validated w' = validated w"
  using assms by (auto simp: saveSession_def Let_def split: if_splits)

lemma duringSave_fields [simp]:
  "heap (duringSave plans w) = heap w"
  "currentSession (duringSave plans w) = currentSession w"
  "config (duringSave plans w) = config w"
  "writes (duringSave plans w) = writes w"
  "stored (duringSave plans w) = stored w"
  "isRunning (duringSave plans w) = isRunning w"
  "allocated (duringSave plans w) = allocated w"
  "validated (duringSave plans w) = validated w"
  by (simp_all add: duringSave_def cancel_def split: list.splits option.splits)




section \<open>Progress while the signal has not fired\<close>

lemma settle_live:
  "\<not> signalAborted (world b) \<Longrightarrow>
   settle b =
     (case waiting (semaphore b) of
        [] \<Rightarrow> b\<lparr>semaphore := (semaphore b)\<lparr>permits := permits (semaphore b) + 1\<rparr>\<rparr>
      | task # rest \<Rightarrow> beginValidation task (b\<lparr>semaphore := (semaphore b)\<lparr>waiting := rest\<rparr>\<rparr>))"
  by (subst settle_unfold) (simp split: list.splits)

lemma progInv_dispatch:
  assumes "progInv k b"
  shows "progInv (Suc k) (dispatch b (k, l))"
proof (cases "0 < permits (semaphore b)")
  case True
  with assms show ?thesis
    by (auto simp: progInv_def dispatch_def acquire_def afterAcquire_def less_Suc_eq)
next
  case False
  with assms show ?thesis
    by (auto simp: progInv_def dispatch_def acquire_def less_Suc_eq)
qed

lemma progInv_foldl_dispatch:
  "progInv k b \<Longrightarrow> progInv (k + length ls) (foldl dispatch b (enumerate k ls))"
proof (induction ls arbitrary: k b)
  case Nil
  then show ?case by simp
next
  case (Cons l ls)
  from Cons.IH [OF progInv_dispatch [OF Cons.prems, of l]]
  show ?case by simp
qed

lemma deliver_slots:
  "resultSlots (deliver env startIndex totalLinks call b) =
     (resultSlots b)[fst call :=
        Some (fst (validateLink (fst (snd call))
          \<lparr>timeoutMs = Some (requestTimeoutMs (config (world b))),
           signal = map_option (AbortSignal False) (abortController (world b))\<rparr>
          (snd (snd call)) (network env (fst (snd call)))))]"
  by (simp add: deliver_def Let_def split: prod.splits)

lemma deliver_aborted [simp]:
  "signalAborted (world (deliver env startIndex totalLinks call b)) = signalAborted (world b)"
  by (rule signalAborted_cong) simp

lemma progInv_complete:
  assumes inv: "progInv k b" and len: "\<forall>p \<in> set (pending b). fst p < length (resultSlots b)"
  shows "progInv k (complete env startIndex totalLinks i b)"
proof (cases "find (\<lambda>p. fst p = i) (pending b)")
  case None
  with inv show ?thesis by (simp add: complete_def)
next
  case (Some call)
  from find_SomeD [OF Some] len have call: "call \<in> set (pending b)" "fst call = i"
    and i: "i < length (resultSlots b)" by auto
  let ?b1 = "b\<lparr>pending := filter (\<lambda>p. fst p \<noteq> i) (pending b)\<rparr>"
  let ?b2 = "deliver env startIndex totalLinks call ?b1"
  have live: "\<not> signalAborted (world ?b2)" using inv by (simp add: progInv_def)
  have filled: "resultSlots ?b2 ! i \<noteq> None"
    using i call by (simp add: deliver_slots)
  have cover: "\<forall>j < k. resultSlots ?b2 ! j \<noteq> None \<or> j \<in> fst ` set (pending ?b2)
                 \<or> j \<in> fst ` set (waiting (semaphore ?b2))"
  proof (intro allI impI)
    fix j assume "j < k"
    with inv have "resultSlots b ! j \<noteq> None \<or> j \<in> fst ` set (pending b)
                 \<or> j \<in> fst ` set (waiting (semaphore b))"
      by (simp add: progInv_def)
    then show "resultSlots ?b2 ! j \<noteq> None \<or> j \<in> fst ` set (pending ?b2)
                 \<or> j \<in> fst ` set (waiting (semaphore ?b2))"
    proof (elim disjE)
      assume "resultSlots b ! j \<noteq> None"
      then show ?thesis
        by (cases "j = i") (use filled call in \<open>auto simp: deliver_slots\<close>)
    next
      assume "j \<in> fst ` set (pending b)"
      then show ?thesis
        by (cases "j = i") (use filled call in \<open>auto simp: image_iff\<close>)
    next
      assume "j \<in> fst ` set (waiting (semaphore b))"
      then show ?thesis by simp
    qed
  qed
  have eq: "complete env startIndex totalLinks i b = settle ?b2"
    using Some by (simp add: complete_def)
  show ?thesis
  proof (cases "waiting (semaphore b)")
    case Nil
    with inv cover live show ?thesis
      unfolding eq by (subst settle_live) (auto simp: progInv_def)
  next
    case (Cons task rest)
    with inv cover live show ?thesis
      unfolding eq by (subst settle_live) (auto simp: progInv_def)
  qed
qed

lemma progInv_tick [simp]: "progInv k (tick b) = progInv k b"
  by (simp add: progInv_def tick_def signalAborted_def)

lemma ordInv_pending: "ordInv batch b \<Longrightarrow> \<forall>p \<in> set (pending b). fst p < length (resultSlots b)"
  by (simp add: ordInv_def)

lemma progInv_foldl_handle:
  "progInv k b \<Longrightarrow> ordInv batch b \<Longrightarrow> Cancel \<notin> set evs
     \<Longrightarrow> progInv k (foldl (handle env startIndex totalLinks) b evs)"
proof (induction evs arbitrary: b)
  case Nil
  then show ?case by simp
next
  case (Cons ev evs)
  then obtain i where ev: "ev = Complete i" by (cases ev) auto
  have "progInv k (handle env startIndex totalLinks b ev)"
    unfolding ev using Cons.prems(1,2)
    by (simp add: progInv_complete ordInv_pending [where batch = batch])
  moreover have "ordInv batch (handle env startIndex totalLinks b ev)"
    using Cons.prems(2) by (rule ordInv_handle)
  ultimately show ?case using Cons.IH Cons.prems(3) by simp
qed

lemma progInv_drain:
  "progInv k b \<Longrightarrow> ordInv batch b \<Longrightarrow> progInv k (drain env startIndex totalLinks b)"
proof (induction env startIndex totalLinks b rule: drain.induct)
  case (1 env startIndex totalLinks b)
  show ?case
  proof (cases "pending b")
    case Nil
    with "1.prems" show ?thesis by (subst drain.simps) simp
  next
    case (Cons call calls)
    have "progInv k (complete env startIndex totalLinks (fst call) (tick b))"
      using "1.prems" by (simp add: progInv_complete ordInv_pending [where batch = batch])
    moreover have "ordInv batch (complete env startIndex totalLinks (fst call) (tick b))"
      using "1.prems"(2) by (simp add: ordInv_complete)
    ultimately show ?thesis
      using "1.IH" [OF Cons] Cons by (subst drain.simps) simp
  qed
qed

lemma foldl_complete_only_abort:
  "Cancel \<notin> set evs \<Longrightarrow>
   abortController (world (foldl (handle env startIndex totalLinks) b evs)) = abortController (world b)"
proof (induction evs arbitrary: b)
  case Nil
  then show ?case by simp
next
  case (Cons ev evs)
  then obtain i where "ev = Complete i" by (cases ev) auto
  with Cons show ?case by simp
qed

lemma slots_all:
  "length slots = length batch
     \<Longrightarrow> \<forall>i < length batch. slots ! i \<noteq> None \<and> (\<forall>r. slots ! i = Some r \<longrightarrow> f r = batch ! i)
     \<Longrightarrow> map f (definedResults slots) = batch"
proof (induction slots arbitrary: batch)
  case Nil
  then show ?case by simp
next
  case (Cons slot slots)
  then obtain l ls where batch: "batch = l # ls" by (cases batch) auto
  have rest: "map f (definedResults slots) = ls"
  proof (rule Cons.IH)
    show "length slots = length ls" using Cons.prems(1) batch by simp
    show "\<forall>i < length ls. slots ! i \<noteq> None \<and> (\<forall>r. slots ! i = Some r \<longrightarrow> f r = ls ! i)"
      using Cons.prems(2) batch by fastforce
  qed
  from Cons.prems(2) batch obtain r where "slot = Some r" "f r = l" by fastforce
  with rest batch show ?case by simp
qed

text \<open>A batch during which \<open>cancel()\<close> is not called yields one outcome per link, for every
  order in which the requests are answered.\<close>

lemma processBatch_complete:
  assumes "\<not> signalAborted w" and "0 < concurrency (config w)" and "Cancel \<notin> set events"
  shows "\<exists>rs w'. processBatch env events batch startIndex totalLinks w = Some (rs, w')
           \<and> map LinkInfo.truncate rs = batch
           \<and> abortController w' = abortController w \<and> fixedPart w' = fixedPart w"
proof -
  let ?created = "\<lparr>world = w, semaphore = newSemaphore (concurrency (config w)),
             resultSlots = replicate (length batch) None, completedInBatch = 0, pending = []\<rparr>"
  let ?mapped = "foldl dispatch ?created (enumerate 0 batch)"
  let ?handled = "foldl (handle env startIndex totalLinks) ?mapped events"
  let ?drained = "drain env startIndex totalLinks ?handled"
  have o0: "ordInv batch ?created"
    by (simp add: ordInv_def newSemaphore_def)
  then have o1: "ordInv batch ?mapped"
    by (rule ordInv_foldl_dispatch) (auto dest: enumerate_wf)
  then have o2: "ordInv batch ?handled" by (rule ordInv_foldl_handle)
  then have o3: "ordInv batch ?drained" by (rule ordInv_drain)
  have "progInv 0 ?created"
    using assms(1,2) by (simp add: progInv_def newSemaphore_def)
  from progInv_foldl_dispatch [OF this, of batch]
  have p1: "progInv (length batch) ?mapped" by simp
  have p2: "progInv (length batch) ?handled"
    using p1 o1 assms(3) by (rule progInv_foldl_handle)
  have p3: "progInv (length batch) ?drained"
    using p2 o2 by (rule progInv_drain)
  have idle: "waiting (semaphore ?drained) = []"
    using p3 by (auto simp: progInv_def)
  then have full: "\<forall>i < length batch. resultSlots ?drained ! i \<noteq> None"
    using p3 by (simp add: progInv_def)
  have "map LinkInfo.truncate (definedResults (resultSlots ?drained)) = batch"
    using o3 full by (intro slots_all) (simp_all add: ordInv_def)
  moreover have "abortController (world ?drained) = abortController w"
    using assms(3) by (simp add: foldl_complete_only_abort)
  moreover have "fixedPart (world ?drained) = fixedPart w" by simp
  ultimately show ?thesis
    using idle by (simp add: processBatch_def Let_def)
qed

section \<open>Splitting into batches\<close>

lemma concat_sliceFrom: "0 < n \<Longrightarrow> concat (sliceFrom n xs i) = drop i xs"
proof (induction n xs i rule: sliceFrom.induct)
  case (1 n xs i)
  show ?case
  proof (cases "i < length xs")
    case True
    have "take n (drop i xs) @ drop (i + n) xs = drop i xs"
      by (metis add.commute append_take_drop_id drop_drop)
    with 1 True show ?thesis
      by (subst sliceFrom.simps) simp
  next
    case False
    then show ?thesis by (subst sliceFrom.simps) simp
  qed
qed

lemma splitBatches_concat: "splitBatches n xs = Some batches \<Longrightarrow> concat batches = xs"
  by (auto simp: splitBatches_def concat_sliceFrom split: if_splits)

lemma splitBatches_Nil [simp]: "splitBatches n [] = Some []"
  by (simp add: splitBatches_def)

lemma sliceFrom_two:
  assumes "0 < n" and "n < length xs"
  shows "\<exists>rest. sliceFrom n xs 0 = take n xs # (take n (drop n xs)) # rest"
proof -
  have "sliceFrom n xs 0 = take n xs # sliceFrom n xs n"
    using assms by (subst sliceFrom.simps) auto
  moreover have "sliceFrom n xs n = take n (drop n xs) # sliceFrom n xs (n + n)"
    using assms by (subst sliceFrom.simps) auto
  ultimately show ?thesis by simp
qed

section \<open>The batch loop\<close>


text \<open>One turn of the batch loop when \<open>cancel()\<close> is not called while the batch runs and
  the store accepts the checkpoint.\<close>

lemma processBatches_step:
  assumes live: "\<not> signalAborted w" and conc: "0 < concurrency (config w)"
    and quiet: "Cancel \<notin> set (duringBatch plans)"
    and cs: "currentSession w = Some a"
    and ok: "\<forall>n. \<not> setRejects env n"
  shows "\<exists>rs1 w3.
      map LinkInfo.truncate rs1 = batch
      \<and> processBatches env startIndex totalLinks plans (batch # rest) acc w =
          processBatches env startIndex totalLinks (tl plans) rest (acc @ rs1) (duringSave plans w3)
      \<and> currentSession w3 = Some a \<and> config w3 = config w
      \<and> abortController w3 = abortController w
      \<and> isRunning w3 = isRunning w \<and> allocated w3 = allocated w
      \<and> heap w3 = (heap w)(a := (heap w a)
            \<lparr>results := take startIndex (results (heap w a)) @ acc @ rs1,
             completedCount := startIndex + length (acc @ rs1)\<rparr>)
      \<and> writes w3 = writes w @ [heap w3 a]
      \<and> stored w3 = Some (heap w3 a)"
proof -
  from processBatch_complete [OF live conc quiet, of env batch "startIndex + length acc" totalLinks]
  obtain rs1 w1 where pb: "processBatch env (duringBatch plans) batch (startIndex + length acc)
        totalLinks w = Some (rs1, w1)"
    and rs1: "map LinkInfo.truncate rs1 = batch"
    and ab: "abortController w1 = abortController w" and fx: "fixedPart w1 = fixedPart w"
    by blast
  note f1 = fixedPartD [OF fx]
  let ?session = "(heap w a)\<lparr>results := take startIndex (results (heap w a)) @ acc @ rs1,
                                completedCount := startIndex + length (acc @ rs1)\<rparr>"
  let ?w2 = "w1\<lparr>heap := (heap w1)(a := ?session)\<rparr>"
  obtain w3 where sv: "saveSession env ?session ?w2 = (True, w3)"
    using ok by (simp add: saveSession_def Let_def)
  note f3 = saveSession_True [OF sv]
  have "processBatches env startIndex totalLinks plans (batch # rest) acc w =
          processBatches env startIndex totalLinks (tl plans) rest (acc @ rs1) (duringSave plans w3)"
    using live pb cs f1 sv by (simp add: Let_def)
  then show ?thesis
    using rs1 f3 f1 ab cs by (intro exI [where x = rs1] exI [where x = w3]) simp
qed

section \<open>Runs without cancellation\<close>

lemma duringSave_quiet:
  "\<forall>p \<in> set plans. \<not> snd p \<Longrightarrow> duringSave plans w = w"
  by (cases plans) (simp_all add: duringSave_def)

lemma duringBatch_quiet:
  "\<forall>p \<in> set plans. Cancel \<notin> set (fst p) \<Longrightarrow> Cancel \<notin> set (duringBatch plans)"
  by (cases plans) (simp_all add: duringBatch_def)

lemma processBatches_complete:
  assumes "\<not> signalAborted w" and "0 < concurrency (config w)"
    and "\<forall>p \<in> set plans. Cancel \<notin> set (fst p) \<and> \<not> snd p"
    and "currentSession w = Some a" and "\<forall>n. \<not> setRejects env n"
    and "results (heap w a) = pre @ acc" and "length pre = startIndex"
  shows "\<exists>new w'.
      processBatches env startIndex totalLinks plans batches acc w = Some (Inr (acc @ new), w')
      \<and> map LinkInfo.truncate new = concat batches
      \<and> currentSession w' = Some a \<and> config w' = config w
      \<and> abortController w' = abortController w
      \<and> isRunning w' = isRunning w \<and> allocated w' = allocated w
      \<and> (batches = [] \<longrightarrow> w' = w)
      \<and> (batches \<noteq> [] \<longrightarrow>
            heap w' = (heap w)(a := (heap w a)
              \<lparr>results := pre @ acc @ new, completedCount := startIndex + length (acc @ new)\<rparr>)
            \<and> stored w' = Some (heap w' a)
            \<and> (\<exists>ws. writes w' = writes w @ ws @ [heap w' a]))"
  using assms
proof (induction batches arbitrary: plans acc w)
  case Nil
  then show ?case by simp
next
  case (Cons batch rest)
  have quiet: "Cancel \<notin> set (duringBatch plans)" and still: "\<And>v. duringSave plans v = v"
    using Cons.prems(3) by (simp_all add: duringBatch_quiet duringSave_quiet)
  have tl: "\<forall>p \<in> set (tl plans). Cancel \<notin> set (fst p) \<and> \<not> snd p"
    using Cons.prems(3) by (cases plans) simp_all
  from processBatches_step [OF Cons.prems(1,2) quiet Cons.prems(4,5),
      of batch startIndex totalLinks rest acc]
  obtain rs1 w3 where rs1: "map LinkInfo.truncate rs1 = batch"
    and step: "processBatches env startIndex totalLinks plans (batch # rest) acc w =
          processBatches env startIndex totalLinks (tl plans) rest (acc @ rs1) w3"
    and w3: "currentSession w3 = Some a" "config w3 = config w"
      "abortController w3 = abortController w" "isRunning w3 = isRunning w"
      "allocated w3 = allocated w"
      "heap w3 = (heap w)(a := (heap w a)
            \<lparr>results := take startIndex (results (heap w a)) @ acc @ rs1,
             completedCount := startIndex + length (acc @ rs1)\<rparr>)"
      "writes w3 = writes w @ [heap w3 a]" "stored w3 = Some (heap w3 a)"
    unfolding still by blast
  have pre: "take startIndex (results (heap w a)) = pre"
    using Cons.prems(6,7) by simp
  have live3: "\<not> signalAborted w3" using Cons.prems(1) w3(3) by (simp add: signalAborted_def)
  have conc3: "0 < concurrency (config w3)" using Cons.prems(2) w3(2) by simp
  have res3: "results (heap w3 a) = pre @ (acc @ rs1)" using w3(6) pre by simp
  from Cons.IH [OF live3 conc3 tl w3(1) Cons.prems(5) res3 Cons.prems(7)]
  obtain new w' where
    run: "processBatches env startIndex totalLinks (tl plans) rest (acc @ rs1) w3
            = Some (Inr ((acc @ rs1) @ new), w')"
    and new: "map LinkInfo.truncate new = concat rest"
    and w': "currentSession w' = Some a" "config w' = config w3"
      "abortController w' = abortController w3" "isRunning w' = isRunning w3"
      "allocated w' = allocated w3"
    and none: "rest = [] \<longrightarrow> w' = w3"
    and some: "rest \<noteq> [] \<longrightarrow>
            heap w' = (heap w3)(a := (heap w3 a)
              \<lparr>results := pre @ (acc @ rs1) @ new,
               completedCount := startIndex + length ((acc @ rs1) @ new)\<rparr>)
            \<and> stored w' = Some (heap w' a)
            \<and> (\<exists>ws. writes w' = writes w3 @ ws @ [heap w' a])"
    by blast
  have heap: "heap w' = (heap w)(a := (heap w a)
              \<lparr>results := pre @ acc @ rs1 @ new,
               completedCount := startIndex + length (acc @ rs1 @ new)\<rparr>)"
  proof (cases "rest = []")
    case True
    with none new w3(6) pre show ?thesis by simp
  next
    case False
    with some w3(6) show ?thesis by (simp add: fun_eq_iff)
  qed
  have stored: "stored w' = Some (heap w' a)"
    using none some w3(8) by (cases "rest = []") simp_all
  have writes: "\<exists>ws. writes w' = writes w @ ws @ [heap w' a]"
  proof (cases "rest = []")
    case True
    with none w3(7) show ?thesis by (intro exI [where x = "[]"]) simp
  next
    case False
    with some obtain ws where "writes w' = writes w3 @ ws @ [heap w' a]" by blast
    with w3(7) show ?thesis by (intro exI [where x = "heap w3 a # ws"]) simp
  qed
  show ?case
    using step run rs1 new w' w3 heap stored writes
    by (intro exI [where x = "rs1 @ new"] exI [where x = w']) simp
qed

section \<open>Which links a batch hands to the validator\<close>

lemma valInv_beginValidation:
  "valInv before batch b \<Longrightarrow> snd task \<in> set batch \<Longrightarrow> valInv before batch (beginValidation task b)"
  by (auto simp: valInv_def beginValidation_def)

lemma valInv_settle: "valInv before batch b \<Longrightarrow> valInv before batch (settle b)"
proof (induction b rule: settle.induct)
  case (1 b)
  show ?case
  proof (cases "waiting (semaphore b)")
    case Nil
    with "1.prems" show ?thesis
      by (subst settle_unfold) (simp add: valInv_def)
  next
    case (Cons task rest)
    let ?b' = "b\<lparr>semaphore := (semaphore b)\<lparr>waiting := rest\<rparr>\<rparr>"
    have inv': "valInv before batch ?b'" and wf: "snd task \<in> set batch"
      using "1.prems" Cons by (auto simp: valInv_def)
    show ?thesis
    proof (cases "signalAborted (world b)")
      case True
      have "release (semaphore b) = (Some task, (semaphore b)\<lparr>waiting := rest\<rparr>)"
        using Cons by (simp add: release_def)
      from "1.IH" [OF this [symmetric] refl True inv']
      show ?thesis using Cons True by (subst settle_unfold) simp
    next
      case False
      with Cons valInv_beginValidation [OF inv' wf] show ?thesis
        by (subst settle_unfold) simp
    qed
  qed
qed

lemma valInv_dispatch:
  assumes "valInv before batch b" and "snd task \<in> set batch"
  shows "valInv before batch (dispatch b task)"
proof -
  have a: "valInv before batch (b\<lparr>semaphore := (semaphore b)\<lparr>permits := permits (semaphore b) - 1\<rparr>\<rparr>)"
    using assms by (simp add: valInv_def)
  have q: "valInv before batch (b\<lparr>semaphore := (semaphore b)\<lparr>waiting := waiting (semaphore b) @ [task]\<rparr>\<rparr>)"
    using assms by (auto simp: valInv_def)
  show ?thesis
    using assms(1) valInv_settle [OF a] valInv_beginValidation [OF a assms(2)] q
    by (simp add: dispatch_def acquire_def afterAcquire_def)
qed

lemma deliver_validated [simp]:
  "validated (world (deliver env startIndex totalLinks call b)) = validated (world b)"
  by (simp add: deliver_def Let_def split: prod.splits)

lemma valInv_complete: "valInv before batch b \<Longrightarrow> valInv before batch (complete env startIndex totalLinks i b)"
proof (cases "find (\<lambda>p. fst p = i) (pending b)")
  case None
  then show "valInv before batch b \<Longrightarrow> ?thesis" by (simp add: complete_def)
next
  case (Some call)
  assume "valInv before batch b"
  then have "valInv before batch
     (deliver env startIndex totalLinks call (b\<lparr>pending := filter (\<lambda>p. fst p \<noteq> i) (pending b)\<rparr>))"
    by (simp add: valInv_def)
  from valInv_settle [OF this] Some show ?thesis by (simp add: complete_def)
qed

lemma valInv_tick [simp]: "valInv before batch (tick b) = valInv before batch b"
  by (simp add: valInv_def tick_def)

lemma valInv_handle: "valInv before batch b \<Longrightarrow> valInv before batch (handle env startIndex totalLinks b ev)"
  by (cases ev) (simp_all add: valInv_complete, simp add: valInv_def tick_def cancel_def split: option.splits)

lemma valInv_drain: "valInv before batch b \<Longrightarrow> valInv before batch (drain env startIndex totalLinks b)"
proof (induction env startIndex totalLinks b rule: drain.induct)
  case (1 env startIndex totalLinks b)
  show ?case
  proof (cases "pending b")
    case Nil
    with "1.prems" show ?thesis by (subst drain.simps) simp
  next
    case (Cons call calls)
    from "1.IH" [OF Cons valInv_complete] "1.prems" Cons show ?thesis
      by (subst drain.simps) simp
  qed
qed

lemma valInv_foldl_handle:
  "valInv before batch b \<Longrightarrow> valInv before batch (foldl (handle env startIndex totalLinks) b evs)"
  by (induction evs arbitrary: b) (simp_all add: valInv_handle)

lemma valInv_foldl_dispatch:
  "valInv before batch b \<Longrightarrow> \<forall>t \<in> set tasks. snd t \<in> set batch
     \<Longrightarrow> valInv before batch (foldl dispatch b tasks)"
  by (induction tasks arbitrary: b) (simp_all add: valInv_dispatch)

lemma processBatch_validated:
  assumes "processBatch env events batch startIndex totalLinks w = Some (rs, w')"
  shows "\<exists>vs. validated w' = validated w @ vs \<and> set vs \<subseteq> set batch"
proof -
  let ?created = "\<lparr>world = w, semaphore = newSemaphore (concurrency (config w)),
             resultSlots = replicate (length batch) None, completedInBatch = 0, pending = []\<rparr>"
  let ?drained = "drain env startIndex totalLinks
      (foldl (handle env startIndex totalLinks) (foldl dispatch ?created (enumerate 0 batch)) events)"
  have "valInv (validated w) batch ?created"
    by (simp add: valInv_def newSemaphore_def)
  then have "valInv (validated w) batch (foldl dispatch ?created (enumerate 0 batch))"
    by (rule valInv_foldl_dispatch) (auto dest: enumerate_wf)
  then have "valInv (validated w) batch ?drained"
    by (intro valInv_drain valInv_foldl_handle)
  moreover have "w' = world ?drained"
    using assms by (simp add: processBatch_def Let_def split: if_splits)
  ultimately show ?thesis by (simp add: valInv_def)
qed

lemma processBatches_validated:
  assumes "processBatches env startIndex totalLinks plans batches acc w = Some (out, w')"
  shows "\<exists>vs. validated w' = validated w @ vs \<and> set vs \<subseteq> set (concat batches)"
  using assms
proof (induction batches arbitrary: acc w plans)
  case Nil
  then show ?case by simp
next
  case (Cons batch rest)
  show ?case
  proof (cases "signalAborted w")
    case True
    with Cons.prems show ?thesis by simp
  next
    case False
    with Cons.prems obtain rs1 w1 where
      pb: "processBatch env (duringBatch plans) batch (startIndex + length acc) totalLinks w
             = Some (rs1, w1)"
      by (auto split: option.splits)
    from processBatch_validated [OF pb] obtain vs1 where
      v1: "validated w1 = validated w @ vs1" "set vs1 \<subseteq> set batch" by blast
    show ?thesis
    proof (cases "currentSession w1")
      case None
      with Cons.prems False pb have
        "processBatches env startIndex totalLinks (tl plans) rest (acc @ rs1) w1 = Some (out, w')"
        by simp
      from Cons.IH [OF this] v1 show ?thesis by auto
    next
      case (Some a)
      let ?S = "(heap w1 a)\<lparr>results := take startIndex (results (heap w1 a)) @ acc @ rs1,
                   completedCount := startIndex + length (acc @ rs1)\<rparr>"
      let ?w2 = "w1\<lparr>heap := (heap w1)(a := ?S)\<rparr>"
      obtain ok w3 where sv: "saveSession env ?S ?w2 = (ok, w3)" by (cases "saveSession env ?S ?w2")
      show ?thesis
      proof (cases ok)
        case False
        with sv have "validated (duringSave plans w3) = validated w1"
          by (simp add: saveSession_False(9))
        moreover have "w' = duringSave plans w3"
          using Cons.prems \<open>\<not> signalAborted w\<close> pb Some sv False by (simp add: Let_def)
        ultimately show ?thesis using v1 by auto
      next
        case True
        with sv have "validated (duringSave plans w3) = validated w1"
          by (simp add: saveSession_True(9))
        moreover have "processBatches env startIndex totalLinks (tl plans) rest (acc @ rs1)
            (duringSave plans w3) = Some (out, w')"
          using Cons.prems \<open>\<not> signalAborted w\<close> pb Some sv True by (simp add: Let_def)
        from Cons.IH [OF this] obtain vs where
          "validated w' = validated (duringSave plans w3) @ vs" "set vs \<subseteq> set (concat rest)"
          by blast
        ultimately show ?thesis using v1 by (intro exI [where x = "vs1 @ vs"]) auto
      qed
    qed
  qed
qed

lemma processLinks_validated:
  assumes "processLinks env plans ls w = Some (out, w')"
  shows "\<exists>vs. validated w' = validated w @ vs \<and> set vs \<subseteq> set ls"
proof -
  from assms obtain batches si tot where "splitBatches (batchSize (config w)) ls = Some batches"
    and "processBatches env si tot plans batches [] w = Some (out, w')"
    by (auto simp: processLinks_def Let_def split: option.splits)
  from processBatches_validated [OF this(2)] splitBatches_concat [OF this(1)]
  show ?thesis by simp
qed

section \<open>Runs begun by start\<close>

lemma finallyReset_fields [simp]:
  "writes (finallyReset w) = writes w" "stored (finallyReset w) = stored w"
  "validated (finallyReset w) = validated w" "heap (finallyReset w) = heap w"
  "isRunning (finallyReset w) = False" "abortController (finallyReset w) = None"
  "currentSession (finallyReset w) = currentSession w" "reported (finallyReset w) = reported w"
  by (simp_all add: finallyReset_def)

lemma cancel_fields [simp]:
  "heap (cancel w) = heap w" "currentSession (cancel w) = currentSession w"
  "writes (cancel w) = writes w" "stored (cancel w) = stored w" "config (cancel w) = config w"
  "validated (cancel w) = validated w" "setCalls (cancel w) = setCalls w"
  by (simp_all add: cancel_def split: option.splits)


lemma faithful_updates [simp]:
  "faithful ls (s\<lparr>sessionStatus := st\<rparr>) = faithful ls s"
  "faithful ls (s\<lparr>completedAt := t\<rparr>) = faithful ls s"
  by (simp_all add: faithful_def)

lemma faithful_createSession [simp]: "faithful ls (createSession env page ls now)"
  by (simp add: faithful_def createSession_def)



section \<open>A run cancelled between two batches\<close>

lemma splitBatches_positive:
  assumes "0 < n"
  shows "\<exists>batches. splitBatches n xs = Some batches \<and> concat batches = xs"
proof (cases "xs = []")
  case True
  then show ?thesis by simp
next
  case False
  with assms have "splitBatches n xs = Some (sliceFrom (nat n) xs 0)"
    by (simp add: splitBatches_def)
  with splitBatches_concat show ?thesis by blast
qed

lemma splitBatches_two:
  assumes "0 < n" and "nat n < length xs"
  shows "\<exists>rest. splitBatches n xs = Some (take (nat n) xs # take (nat n) (drop (nat n) xs) # rest)"
proof -
  from assms have "xs \<noteq> []" by auto
  with assms have "splitBatches n xs = Some (sliceFrom (nat n) xs 0)"
    by (simp add: splitBatches_def)
  moreover from sliceFrom_two [of "nat n" xs] assms
  obtain rest where "sliceFrom (nat n) xs 0 = take (nat n) xs # take (nat n) (drop (nat n) xs) # rest"
    by auto
  ultimately show ?thesis by simp
qed

lemma start_cancel_between_batches:
  assumes idle: "\<not> isRunning w" and conc: "0 < concurrency (config w)"
    and size: "0 < batchSize (config w)" and more: "nat (batchSize (config w)) < length ls"
    and ok: "\<forall>n. \<not> setRejects env n" and quiet: "Cancel \<notin> set events"
  shows "\<exists>rs w' s.
      start env \<lparr>cancelledEarly = False, batchPlans = [(events, True)]\<rparr> page ls w
        = Some (Inr rs, w')
      \<and> map LinkInfo.truncate rs = take (nat (batchSize (config w))) ls
      \<and> stored w' = Some s \<and> results s = rs \<and> completedCount s = length rs
      \<and> links s = ls \<and> sessionStatus s = Completed"
proof -
  let ?a = "allocated w"
  let ?S0 = "createSession env page ls (clock w)"
  let ?w1 = "w\<lparr>heap := (heap w)(?a := ?S0), allocated := ?a + 1, currentSession := Some ?a,
                abortController := Some False, isRunning := True\<rparr>"
  let ?plans = "[(events, True)]"
  obtain w2 where sv: "saveSession env ?S0 ?w1 = (True, w2)"
    using ok by (simp add: saveSession_def Let_def)
  note f2 = saveSession_True [OF sv]
  have live2: "\<not> signalAborted w2" and conc2: "0 < concurrency (config w2)"
    and cs2: "currentSession w2 = Some ?a"
    using f2 conc by (simp_all add: signalAborted_def)
  have quiet2: "Cancel \<notin> set (duringBatch ?plans)" using quiet by (simp add: duringBatch_def)
  from splitBatches_two [OF size more] obtain rest where
    sp: "splitBatches (batchSize (config w2)) ls
          = Some (take (nat (batchSize (config w))) ls
                  # take (nat (batchSize (config w))) (drop (nat (batchSize (config w))) ls) # rest)"
    using f2 by auto
  let ?b1 = "take (nat (batchSize (config w))) ls"
  let ?b2 = "take (nat (batchSize (config w))) (drop (nat (batchSize (config w))) ls)"
  from processBatches_step [OF live2 conc2 quiet2 cs2 ok, of ?b1 0 "length ls" "?b2 # rest" "[]"]
  obtain rs1 w3 where rs1: "map LinkInfo.truncate rs1 = ?b1"
    and step: "processBatches env 0 (length ls) ?plans (?b1 # ?b2 # rest) [] w2 =
          processBatches env 0 (length ls) [] (?b2 # rest) rs1 (duringSave ?plans w3)"
    and w3: "currentSession w3 = Some ?a" "abortController w3 = abortController w2"
      "heap w3 = (heap w2)(?a := (heap w2 ?a)\<lparr>results := rs1, completedCount := length rs1\<rparr>)"
    by auto
  let ?w3c = "cancel w3"
  have fired: "signalAborted ?w3c"
    using w3(2) f2 by (simp add: cancel_def signalAborted_def)
  have pl: "processLinks env ?plans ls w2 = Some (Inr rs1, ?w3c)"
    using sp cs2 f2 step fired
    by (simp add: processLinks_def Let_def createSession_def duringSave_def)
  let ?S4 = "(heap ?w3c ?a)\<lparr>sessionStatus := Completed, completedAt := Some (clock ?w3c)\<rparr>"
  let ?w4 = "?w3c\<lparr>heap := (heap ?w3c)(?a := ?S4)\<rparr>"
  obtain w5 where sv5: "saveSession env ?S4 ?w4 = (True, w5)"
    using ok by (simp add: saveSession_def Let_def)
  note f5 = saveSession_True [OF sv5]
  have "start env \<lparr>cancelledEarly = False, batchPlans = ?plans\<rparr> page ls w
          = Some (Inr rs1, finallyReset w5)"
    using idle sv pl w3(1) sv5 by (simp add: start_def Let_def)
  moreover have "stored (finallyReset w5) = Some ?S4" using f5 by simp
  moreover have "results ?S4 = rs1" "completedCount ?S4 = length rs1" "links ?S4 = ls"
    "sessionStatus ?S4 = Completed"
    using w3(3) f2 by (simp_all add: createSession_def)
  ultimately show ?thesis using rs1 by blast
qed

section \<open>Runs begun by resume\<close>

lemma resume_appends_twice:
  assumes idle: "\<not> isRunning w" and get: "\<not> getRejects env" and ok: "\<forall>n. \<not> setRejects env n"
    and st: "stored w = Some S" and chk: "sessionStatus S = Checking"
    and wf: "completedCount S = length (results S)"
    and conc: "0 < concurrency (config w)" and size: "0 < batchSize (config w)"
    and quiet: "\<forall>p \<in> set plans. Cancel \<notin> set (fst p) \<and> \<not> snd p"
  shows "\<exists>new w' S'.
      resume env plans w = Some (Inr (Some (results S @ new @ new)), w')
      \<and> map LinkInfo.truncate new = drop (completedCount S) (links S)
      \<and> stored w' = Some S' \<and> results S' = results S @ new @ new
      \<and> completedCount S' = length (results S) + length new
      \<and> links S' = links S \<and> sessionStatus S' = Completed
      \<and> (\<exists>vs. validated w' = validated w @ vs \<and> set vs \<subseteq> set (drop (completedCount S) (links S)))"
proof -
  let ?a = "allocated w"
  let ?w1 = "w\<lparr>heap := (heap w)(?a := S), allocated := ?a + 1, currentSession := Some ?a,
                abortController := Some False, isRunning := True\<rparr>"
  let ?remaining = "drop (completedCount S) (links S)"
  have live1: "\<not> signalAborted ?w1" and conc1: "0 < concurrency (config ?w1)"
    and cs1: "currentSession ?w1 = Some ?a" and h1: "results (heap ?w1 ?a) = results S @ []"
    using conc by (simp_all add: signalAborted_def)
  from splitBatches_positive [OF size, of ?remaining] obtain batches where
    sp: "splitBatches (batchSize (config ?w1)) ?remaining = Some batches"
    and cc: "concat batches = ?remaining" by auto
  from processBatches_complete [OF live1 conc1 quiet cs1 ok h1 wf [symmetric],
      of "length (links S)" batches]
  obtain new w2 where
    run: "processBatches env (completedCount S) (length (links S)) plans batches [] ?w1
            = Some (Inr new, w2)"
    and new: "map LinkInfo.truncate new = concat batches"
    and w2: "currentSession w2 = Some ?a"
    and none: "batches = [] \<longrightarrow> w2 = ?w1"
    and some: "batches \<noteq> [] \<longrightarrow>
            heap w2 = (heap ?w1)(?a := (heap ?w1 ?a)
              \<lparr>results := results S @ new, completedCount := completedCount S + length new\<rparr>)"
    by auto
  have pl: "processLinks env plans ?remaining ?w1 = Some (Inr new, w2)"
    using sp run by (simp add: processLinks_def Let_def)
  have h2: "heap w2 ?a = S\<lparr>results := results S @ new, completedCount := length (results S) + length new\<rparr>"
  proof (cases "batches = []")
    case True
    with new have "new = []" by simp
    with True none wf show ?thesis by simp
  next
    case False
    with some wf show ?thesis by simp
  qed
  let ?all = "results (heap w2 ?a) @ new"
  let ?S3 = "(heap w2 ?a)\<lparr>sessionStatus := Completed, results := ?all,
                            completedAt := Some (clock w2)\<rparr>"
  let ?w3 = "w2\<lparr>heap := (heap w2)(?a := ?S3)\<rparr>"
  obtain w4 where sv: "saveSession env ?S3 ?w3 = (True, w4)"
    using ok by (simp add: saveSession_def Let_def)
  note f4 = saveSession_True [OF sv]
  have "resume env plans w = Some (Inr (Some ?all), finallyReset w4)"
    using idle get st chk pl w2 sv by (simp add: resume_def Let_def)
  moreover have "?all = results S @ new @ new" using h2 by simp
  moreover have "stored (finallyReset w4) = Some ?S3" using f4 by simp
  moreover have "results ?S3 = results S @ new @ new"
    "completedCount ?S3 = length (results S) + length new" "links ?S3 = links S"
    "sessionStatus ?S3 = Completed"
    using h2 by simp_all
  moreover from processLinks_validated [OF pl] f4
  have "\<exists>vs. validated (finallyReset w4) = validated w @ vs \<and> set vs \<subseteq> set ?remaining"
    by simp
  ultimately show ?thesis using new cc by (metis (no_types, lifting))
qed

section \<open>A run of start that nobody cancels\<close>


section \<open>Claims about runs\<close>

lemma idle_processor:
  "\<not> isRunning (newBatchProcessor c b t)"
  "concurrency (config (newBatchProcessor None b t)) = 5"
  "batchSize (config (newBatchProcessor c None t)) = 20"
  "validated (newBatchProcessor c b t) = []"
  "writes (newBatchProcessor c b t) = []"
  by (simp_all add: newBatchProcessor_def DEFAULT_CONCURRENCY_def DEFAULT_BATCH_SIZE_def)

lemma calmEnv_accepts: "\<forall>n. \<not> setRejects calmEnv n" "\<not> getRejects calmEnv"
  by (simp_all add: calmEnv_def)

lemma restartedWorld_fields:
  "\<not> isRunning restartedWorld" "stored restartedWorld = Some interruptedSession"
  "0 < concurrency (config restartedWorld)" "0 < batchSize (config restartedWorld)"
  "validated restartedWorld = []"
  by (simp_all add: restartedWorld_def idle_processor)

lemma interruptedSession_fields:
  "sessionStatus interruptedSession = Checking"
  "completedCount interruptedSession = length (results interruptedSession)"
  "drop (completedCount interruptedSession) (links interruptedSession) = map testLink [20..<25]"
  "length (results interruptedSession) = 20"
  by (simp_all add: interruptedSession_def drop_map)

lemma resume_restarted:
  "\<exists>new w' s.
     resume calmEnv [] restartedWorld
       = Some (Inr (Some (results interruptedSession @ new @ new)), w')
     \<and> map LinkInfo.truncate new = map testLink [20..<25]
     \<and> stored w' = Some s \<and> results s = results interruptedSession @ new @ new
     \<and> completedCount s = 20 + length new
     \<and> set (validated w') \<subseteq> set (map testLink [20..<25])"
proof -
  have quiet: "\<forall>p \<in> set ([] :: BatchPlan list). Cancel \<notin> set (fst p) \<and> \<not> snd p" by simp
  from resume_appends_twice [OF restartedWorld_fields(1) calmEnv_accepts(2) calmEnv_accepts(1)
      restartedWorld_fields(2) interruptedSession_fields(1,2) restartedWorld_fields(3,4) quiet]
  obtain new w' s where
    run: "resume calmEnv [] restartedWorld
            = Some (Inr (Some (results interruptedSession @ new @ new)), w')"
    and new: "map LinkInfo.truncate new
                = drop (completedCount interruptedSession) (links interruptedSession)"
    and s: "stored w' = Some s" "results s = results interruptedSession @ new @ new"
      "completedCount s = length (results interruptedSession) + length new"
    and v: "\<exists>vs. validated w' = validated restartedWorld @ vs
              \<and> set vs \<subseteq> set (drop (completedCount interruptedSession) (links interruptedSession))"
    by blast
  from v have "set (validated w') \<subseteq> set (map testLink [20..<25])"
    unfolding interruptedSession_fields(3) restartedWorld_fields(5) by auto
  moreover from new have "map LinkInfo.truncate new = map testLink [20..<25]"
    unfolding interruptedSession_fields(3) .
  moreover from s(3) have "completedCount s = 20 + length new"
    unfolding interruptedSession_fields(4) .
  ultimately show ?thesis using run s(1,2) by blast
qed

text \<open>
  C1, at the scenario of the specification: 25 links, the default batch size 20 and
  concurrency 5, every request answered 200, \<open>cancel()\<close> called while the checkpoint after
  the first batch is being saved. The run returns 20 outcomes, and the session it persists
  last holds 20 results with status \<open>completed\<close>, not \<open>cancelled\<close>: the batch loop leaves
  by \<open>break\<close>, so \<open>start\<close> takes its normal path and never reaches the \<open>catch\<close> block that
  sets \<open>cancelled\<close>.
\<close>

theorem cancel_after_first_chunk_ends_completed:
  "\<exists>rs w' s.
     start calmEnv \<lparr>cancelledEarly = False, batchPlans = [([], True)]\<rparr> ''http://p/''
         (map testLink [0..<25]) (newBatchProcessor None None None)
       = Some (Inr rs, w')
     \<and> length rs = 20 \<and> stored w' = Some s \<and> length (results s) = 20
     \<and> completedCount s = 20 \<and> sessionStatus s = Completed \<and> sessionStatus s \<noteq> Cancelled"
proof -
  have more: "nat (batchSize (config (newBatchProcessor None None None)))
      < length (map testLink [0..<25])"
    by (simp add: idle_processor)
  have quiet: "Cancel \<notin> set []" by simp
  from start_cancel_between_batches [OF idle_processor(1) _ _ more calmEnv_accepts(1) quiet,
      of "''http://p/''"]
  obtain rs w' s where
    run: "start calmEnv \<lparr>cancelledEarly = False, batchPlans = [([], True)]\<rparr> ''http://p/''
         (map testLink [0..<25]) (newBatchProcessor None None None) = Some (Inr rs, w')"
    and rs: "map LinkInfo.truncate rs = take 20 (map testLink [0..<25])"
    and s: "stored w' = Some s" "results s = rs" "completedCount s = length rs"
      "sessionStatus s = Completed"
    unfolding idle_processor by auto
  have "length (map LinkInfo.truncate rs) = 20" unfolding rs by simp
  then have "length rs = 20" by simp
  with run s show ?thesis by simp
qed

text \<open>
  C3, at a session left in the store by a run over 25 links that was interrupted after
  its first checkpoint (20 results, count 20, status \<open>checking\<close>). \<open>resume\<close> validates the
  remaining 5 links; the session it persists last has a count of 25 and 30 results.
\<close>

theorem resume_breaks_count_invariant:
  "\<exists>rs w' s.
     resume calmEnv [] restartedWorld = Some (Inr (Some rs), w')
     \<and> stored w' = Some s \<and> completedCount s = 25 \<and> length (results s) = 30"
proof -
  from resume_restarted obtain new w' s where
    run: "resume calmEnv [] restartedWorld
            = Some (Inr (Some (results interruptedSession @ new @ new)), w')"
    and new: "map LinkInfo.truncate new = map testLink [20..<25]"
    and s: "stored w' = Some s" "results s = results interruptedSession @ new @ new"
      "completedCount s = 20 + length new"
    by blast
  have "length (map LinkInfo.truncate new) = 5" unfolding new by simp
  then have "length new = 5" by simp
  with run s show ?thesis by (simp add: interruptedSession_fields(4))
qed

text \<open>
  C4, at the same session. \<open>resume\<close> hands only the links at positions 20 to 24 to the
  validator, but the list it returns and persists is the 20 stored outcomes followed by
  the 5 new outcomes twice: \<open>processLinks\<close> has already appended them to the session
  object that \<open>resume\<close> then reads through its local name \<open>session\<close>.
\<close>

theorem resume_repeats_new_outcomes:
  "\<exists>new w' s.
     resume calmEnv [] restartedWorld
       = Some (Inr (Some (results interruptedSession @ new @ new)), w')
     \<and> map LinkInfo.truncate new = map testLink [20..<25]
     \<and> stored w' = Some s \<and> results s = results interruptedSession @ new @ new
     \<and> results s \<noteq> results interruptedSession @ new
     \<and> set (validated w') \<subseteq> set (map testLink [20..<25])"
proof -
  from resume_restarted obtain new w' s where
    run: "resume calmEnv [] restartedWorld
            = Some (Inr (Some (results interruptedSession @ new @ new)), w')"
    and new: "map LinkInfo.truncate new = map testLink [20..<25]"
    and s: "stored w' = Some s" "results s = results interruptedSession @ new @ new"
    and v: "set (validated w') \<subseteq> set (map testLink [20..<25])"
    by blast
  have "length (map LinkInfo.truncate new) = 5" unfolding new by simp
  then have "new \<noteq> []" by auto
  with s(2) have "results s \<noteq> results interruptedSession @ new" by simp
  with run new s v show ?thesis by blast
qed



text \<open>
  C10. Called on an idle processor with an empty list, while the store accepts the two
  writes, \<open>start\<close> returns the empty outcome list without an error. No link is handed to
  the validator and nothing is reported, and the session left in the store has status
  \<open>completed\<close>, no results, a count of 0 and a completion time.
\<close>

theorem start_empty_list:
  assumes "\<not> isRunning w" and "\<not> setRejects env (setCalls w)"
    and "\<not> setRejects env (Suc (setCalls w))"
  shows "\<exists>w' s. start env schedule page [] w = Some (Inr [], w')
      \<and> stored w' = Some s \<and> sessionStatus s = Completed \<and> results s = []
      \<and> completedCount s = 0 \<and> completedAt s \<noteq> None \<and> links s = [] \<and> pageUrl s = page
      \<and> validated w' = validated w \<and> reported w' = reported w \<and> \<not> isRunning w'"
  using assms
  by (simp add: start_def saveSession_def processLinks_def Let_def createSession_def
      finallyReset_def cancel_def)

theorem start_empty_list_witness:
  "\<exists>w' s. start calmEnv \<lparr>cancelledEarly = False, batchPlans = []\<rparr> ''http://p/'' []
              (newBatchProcessor None None None) = Some (Inr [], w')
      \<and> stored w' = Some s \<and> sessionStatus s = Completed \<and> results s = []
      \<and> completedCount s = 0 \<and> completedAt s \<noteq> None \<and> validated w' = []"
proof -
  have "\<not> setRejects calmEnv (setCalls (newBatchProcessor None None None))"
    and "\<not> setRejects calmEnv (Suc (setCalls (newBatchProcessor None None None)))"
    by (simp_all add: calmEnv_accepts)
  from start_empty_list [OF idle_processor(1) this,
      of "\<lparr>cancelledEarly = False, batchPlans = []\<rparr>" "''http://p/''"]
  show ?thesis by (auto simp: idle_processor)
qed

end
